theory Spec2Isabelle
  imports Main "HOL-Library.Word" "HOL-Library.Log_Nat"
begin

section \<open>Data model of \<open>common/download.go\<close>\<close>

text \<open>
  Go's \<open>uint\<close> is taken at its 64-bit width: addition wraps modulo \<open>2 ^ 64\<close>.
  A Go \<open>error\<close> value is \<open>error option\<close>, \<open>None\<close> being \<open>nil\<close>; \<open>io.EOF\<close> is the one
  error value the code compares against.
\<close>

type_synonym uint = "64 word"
type_synonym byte = "8 word"

datatype error = io_EOF | Failure string

text \<open>\<open>type HTTPDownloader struct { progress uint; total uint; userAgent string }\<close>\<close>

record HTTPDownloader =
  progress :: uint
  total :: uint
  userAgent :: string

text \<open>
  The \<open>Downloader\<close> interface. A \<open>DownloadClient\<close> only ever calls \<open>Progress()\<close> and
  \<open>Total()\<close> on it, so an implementation other than \<open>*HTTPDownloader\<close> is represented
  by what these two methods return.
\<close>

datatype Downloader =
    HTTPImpl HTTPDownloader
  | OtherImpl uint uint

fun Progress :: "Downloader \<Rightarrow> uint" where
  "Progress (HTTPImpl d) = progress d"
| "Progress (OtherImpl p t) = p"

fun Total :: "Downloader \<Rightarrow> uint" where
  "Total (HTTPImpl d) = total d"
| "Total (OtherImpl p t) = t"

text \<open>
  \<open>DownloadConfig\<close>. A nil \<open>DownloaderMap\<close> is \<open>None\<close>; the \<open>hash.Hash\<close> handle is
  opaque to this file and is a type parameter.
\<close>

record 'h DownloadConfig =
  Url :: string
  TargetPath :: string
  DownloaderMap :: "(string \<rightharpoonup> Downloader) option"
  CopyFile :: bool
  Hash :: 'h
  Checksum :: "byte list"
  UserAgent :: string

text \<open>
  \<open>DownloadClient\<close> holds a pointer to the configuration it was built from; the
  record field is the pointed-to configuration, which \<open>NewDownloadClient\<close> also hands
  back so that the caller's view of it is explicit. A nil \<open>downloader\<close> is \<open>None\<close>.
\<close>

record 'h DownloadClient =
  config :: "'h DownloadConfig"
  downloader :: "Downloader option"

definition default_DownloaderMap :: "string \<Rightarrow> (string \<rightharpoonup> Downloader)" where
  "default_DownloaderMap ua =
     [''http'' \<mapsto> HTTPImpl \<lparr>progress = 0, total = 0, userAgent = ua\<rparr>,
      ''https'' \<mapsto> HTTPImpl \<lparr>progress = 0, total = 0, userAgent = ua\<rparr>]"

text \<open>
  \<open>NewDownloadClient(c)\<close>: returns the configuration as it is after the call (the
  code writes through the pointer \<open>c\<close>) and the new client.
\<close>

definition NewDownloadClient :: "'h DownloadConfig \<Rightarrow> 'h DownloadConfig \<times> 'h DownloadClient" where
  "NewDownloadClient c =
     (let c' = (if DownloaderMap c = None
                then c\<lparr>DownloaderMap := Some (default_DownloaderMap (UserAgent c))\<rparr>
                else c)
      in (c', \<lparr>config = c', downloader = None\<rparr>))"

subsection \<open>\<open>Get\<close>\<close>

text \<open>
  The two collaborators of \<open>Get\<close> are outside this file: \<open>os.Getwd\<close> and go-getter's
  \<open>Client.Get\<close>. Their outcomes are given by the environment; go-getter is handed a
  \<open>getter.Client\<close> value built from the configuration's strings and nothing else.
  Logging is left out, here and in \<open>Download\<close>.
\<close>

datatype ClientMode = ClientModeFile | ClientModeDir | ClientModeAny

record getter_Client =
  Src :: string
  Dst :: string
  Pwd :: string
  Mode :: ClientMode
  Dir :: bool

record get_env =
  os_Getwd :: "error + string"
  getter_Get :: "getter_Client \<Rightarrow> error option"

definition Get :: "get_env \<Rightarrow> 'h DownloadClient \<Rightarrow> (string \<times> error option) \<times> 'h DownloadClient" where
  "Get env d =
     (case os_Getwd env of
        Inl err \<Rightarrow> (('''', Some err), d)
      | Inr pwd \<Rightarrow>
          (let gc = \<lparr>Src = Url (config d), Dst = TargetPath (config d), Pwd = pwd,
                     Mode = ClientModeFile, Dir = False\<rparr>
           in case getter_Get env gc of
                Some err \<Rightarrow> (('''', Some err), d)
              | None \<Rightarrow> ((TargetPath (config d), None), d)))"

text \<open>The client after a series of \<open>Get\<close> calls, one environment per call.\<close>

fun Get_calls :: "get_env list \<Rightarrow> 'h DownloadClient \<Rightarrow> 'h DownloadClient" where
  "Get_calls [] d = d"
| "Get_calls (env # envs) d = Get_calls envs (snd (Get env d))"

section \<open>\<open>float64\<close> arithmetic, as \<open>PercentProgress\<close> uses it\<close>

text \<open>
  An IEEE 754 binary64 value is a rational number with a 53-bit significand, an
  infinity or a NaN. The sign of a zero is not kept: the operands here come from
  unsigned integers.
\<close>

datatype float64 = Finite rat | PosInf | NegInf | NaN

text \<open>\<open>ilog2 x\<close> is the exponent \<open>e\<close> with \<open>2 ^ e \<le> x < 2 ^ (e + 1)\<close>, for \<open>0 < x\<close>.\<close>

definition ilog2 :: "rat \<Rightarrow> int" where
  "ilog2 x = (if 1 \<le> x then bitlen \<lfloor>x\<rfloor> - 1 else - bitlen (\<lceil>1 / x\<rceil> - 1))"

text \<open>Rounding to the nearest integer, a tie going to the even one.\<close>

definition round_even :: "rat \<Rightarrow> int" where
  "round_even q =
     (let n = \<lfloor>q\<rfloor>; r = q - of_int n
      in if r < 1 / 2 then n else if 1 / 2 < r then n + 1 else if even n then n else n + 1)"

text \<open>
  The exponent that fixes the spacing of the binary64 values around \<open>x\<close>
  (subnormal below \<open>2 ^ -1022\<close>), and the rounding of a positive \<open>x\<close> to a multiple
  of that spacing.
\<close>

definition expo :: "rat \<Rightarrow> int" where
  "expo x = max (ilog2 x) (- 1022)"

definition round_mag :: "rat \<Rightarrow> rat" where
  "round_mag x =
     (let ulp = 2 powi (expo x - 52)
      in of_int (round_even (x / ulp)) * ulp)"

text \<open>Round to nearest, ties to even, overflowing to an infinity.\<close>

definition float64_round :: "rat \<Rightarrow> float64" where
  "float64_round x =
     (if x = 0 then Finite 0
      else let m = round_mag \<bar>x\<bar>
           in if 2 ^ 1024 \<le> m then (if 0 < x then PosInf else NegInf)
              else Finite (sgn x * m))"

text \<open>\<open>float64(u)\<close> for a \<open>uint\<close>.\<close>

definition float64_of_uint :: "uint \<Rightarrow> float64" where
  "float64_of_uint u = float64_round (of_nat (unat u))"

text \<open>The quotient \<open>a / b\<close> and the product \<open>a * b\<close> of two \<open>float64\<close> values.\<close>

fun float64_div :: "float64 \<Rightarrow> float64 \<Rightarrow> float64" where
  "float64_div NaN b = NaN"
| "float64_div a NaN = NaN"
| "float64_div (Finite x) (Finite y) =
     (if y = 0 then (if x = 0 then NaN else if 0 < x then PosInf else NegInf)
      else float64_round (x / y))"
| "float64_div (Finite x) b = Finite 0"
| "float64_div PosInf (Finite y) = (if 0 \<le> y then PosInf else NegInf)"
| "float64_div NegInf (Finite y) = (if 0 \<le> y then NegInf else PosInf)"
| "float64_div a b = NaN"

fun float64_mul :: "float64 \<Rightarrow> float64 \<Rightarrow> float64" where
  "float64_mul NaN b = NaN"
| "float64_mul a NaN = NaN"
| "float64_mul (Finite x) (Finite y) = float64_round (x * y)"
| "float64_mul (Finite x) PosInf = (if x = 0 then NaN else if 0 < x then PosInf else NegInf)"
| "float64_mul (Finite x) NegInf = (if x = 0 then NaN else if 0 < x then NegInf else PosInf)"
| "float64_mul PosInf (Finite y) = (if y = 0 then NaN else if 0 < y then PosInf else NegInf)"
| "float64_mul NegInf (Finite y) = (if y = 0 then NaN else if 0 < y then NegInf else PosInf)"
| "float64_mul PosInf PosInf = PosInf"
| "float64_mul NegInf NegInf = PosInf"
| "float64_mul PosInf NegInf = NegInf"
| "float64_mul NegInf PosInf = NegInf"

text \<open>
  \<open>int(f)\<close>: the fraction is discarded (truncation towards zero). When the value
  does not fit Go's 64-bit \<open>int\<close>, or is an infinity or a NaN, the conversion
  succeeds and its result depends on the implementation: it is \<open>unrep f\<close>, a
  parameter. On amd64 the hardware conversion gives the smallest \<open>int64\<close> for
  every such value.
\<close>

definition trunc :: "rat \<Rightarrow> int" where
  "trunc x = (if 0 \<le> x then \<lfloor>x\<rfloor> else \<lceil>x\<rceil>)"

definition float64_to_int :: "(float64 \<Rightarrow> int) \<Rightarrow> float64 \<Rightarrow> int" where
  "float64_to_int unrep f =
     (case f of
        Finite x \<Rightarrow> (if - (2 ^ 63) \<le> trunc x \<and> trunc x < 2 ^ 63 then trunc x else unrep f)
      | _ \<Rightarrow> unrep f)"

definition amd64_unrep :: "float64 \<Rightarrow> int" where
  "amd64_unrep f = - (2 ^ 63)"

section \<open>\<open>PercentProgress\<close>\<close>

definition PercentProgress :: "(float64 \<Rightarrow> int) \<Rightarrow> 'h DownloadClient \<Rightarrow> int" where
  "PercentProgress unrep d =
     (case downloader d of
        None \<Rightarrow> - 1
      | Some dl \<Rightarrow>
          float64_to_int unrep
            (float64_mul (float64_div (float64_of_uint (Progress dl)) (float64_of_uint (Total dl)))
               (Finite 100)))"

section \<open>\<open>HTTPDownloader.Download\<close>\<close>

subsection \<open>The destination file\<close>

text \<open>
  An open \<open>*os.File\<close>: its bytes and the offset of the next write. \<open>Write\<close> at the
  offset overwrites what is there and extends the file past its end (a gap before
  the offset reads as zeros); writing no bytes changes nothing. Whether a call on
  the file fails is decided by the environment.
\<close>

record os_File =
  contents :: "byte list"
  offset :: nat

definition write_at :: "os_File \<Rightarrow> byte list \<Rightarrow> os_File" where
  "write_at f bs =
     (if bs = [] then f
      else
        \<lparr>contents = take (offset f) (contents f) @ replicate (offset f - length (contents f)) 0
                     @ bs @ drop (offset f + length bs) (contents f),
         offset = offset f + length bs\<rparr>)"

subsection \<open>HTTP requests and responses\<close>

record request =
  Method :: string
  URL :: string
  Header :: "string \<rightharpoonup> string"

text \<open>
  A response body is the series of results that successive \<open>Body.Read(buffer[:])\<close>
  calls give: the bytes placed in the buffer (\<open>n\<close> is their number, at most 4096 by
  the contract of \<open>io.Reader\<close>) and the error returned with them.
\<close>

type_synonym read_result = "byte list \<times> error option"

record response =
  StatusCode :: int
  RespHeader :: "string \<rightharpoonup> string"
  ContentLength :: int
  Body :: "read_result list"

text \<open>
  The environment of one \<open>Download\<close> call: the outcome of each call the code makes
  on the file, on \<open>net/http\<close> and on the response body. The \<open>k\<close>-th \<open>dst.Write\<close> of the
  loop (from 0) either succeeds (\<open>None\<close>) or writes only a prefix of \<open>n\<close> bytes and
  reports an error.
\<close>

record dl_env =
  seek_start :: "error option"
  http_NewRequest :: "error option"
  http_Do :: "request \<Rightarrow> error + response"
  dst_Stat :: "error option"
  seek_end :: "error option"
  dst_Write :: "nat \<Rightarrow> (nat \<times> error) option"

text \<open>\<open>fmt.Sprintf("%d", n)\<close> for a non-negative \<open>n\<close>.\<close>

definition digit_char :: "nat \<Rightarrow> char" where
  "digit_char n = ''0123456789'' ! n"

fun show_nat :: "nat \<Rightarrow> string" where
  "show_nat n = (if n < 10 then [digit_char n] else show_nat (n div 10) @ [digit_char (n mod 10)])"

declare show_nat.simps [simp del]

subsection \<open>The streaming loop (lines 177 to 192)\<close>

text \<open>
  One reading of the body per list element. \<open>None\<close> means that the reads described
  so far have reported neither \<open>io.EOF\<close> nor an error: the loop has not returned.
  \<open>Some (err, d, f)\<close> is the value \<open>Download\<close> returns together with the downloader
  and the file as they are then.
\<close>

fun stream_loop :: "(nat \<Rightarrow> (nat \<times> error) option) \<Rightarrow> nat \<Rightarrow> read_result list \<Rightarrow>
    HTTPDownloader \<Rightarrow> os_File \<Rightarrow> (error option \<times> HTTPDownloader \<times> os_File) option" where
  "stream_loop wr k [] d f = None"
| "stream_loop wr k ((buf, err) # rest) d f =
     (if err \<noteq> None \<and> err \<noteq> Some io_EOF then Some (err, d, f)
      else
        let d' = d\<lparr>progress := progress d + of_nat (length buf)\<rparr> in
        case wr k of
          Some (n, werr) \<Rightarrow> Some (Some werr, d', write_at f (take n buf))
        | None \<Rightarrow>
            let f' = write_at f buf in
            if err = Some io_EOF then Some (None, d', f')
            else stream_loop wr (Suc k) rest d' f')"

text \<open>
  The states of the downloader that an observer can see while the loop runs: the
  state on entry, then the state after each \<open>d.progress += uint(n)\<close>. The last
  one is the state in which the loop returns, when it does.
\<close>

fun loop_states :: "(nat \<Rightarrow> (nat \<times> error) option) \<Rightarrow> nat \<Rightarrow> read_result list \<Rightarrow>
    HTTPDownloader \<Rightarrow> HTTPDownloader list" where
  "loop_states wr k [] d = [d]"
| "loop_states wr k ((buf, err) # rest) d =
     (if err \<noteq> None \<and> err \<noteq> Some io_EOF then [d]
      else
        let d' = d\<lparr>progress := progress d + of_nat (length buf)\<rparr> in
        if wr k \<noteq> None \<or> err = Some io_EOF then [d, d']
        else d # loop_states wr (Suc k) rest d')"

text \<open>
  The bytes that the loop takes from a body before it stops reading: every
  buffer up to and including the one that comes with \<open>io.EOF\<close>; a buffer that comes
  with another error is dropped.
\<close>

fun body_bytes :: "read_result list \<Rightarrow> byte list" where
  "body_bytes [] = []"
| "body_bytes ((buf, err) # rest) =
     (if err = None then buf @ body_bytes rest
      else if err = Some io_EOF then buf
      else [])"

text \<open>
  A body that is read without error: the chunks in turn, each with a nil error,
  then a last buffer (often empty) with \<open>io.EOF\<close>.
\<close>

definition reads_of :: "byte list list \<Rightarrow> byte list \<Rightarrow> read_result list" where
  "reads_of chunks final = map (\<lambda>c. (c, None)) chunks @ [(final, Some io_EOF)]"

subsection \<open>\<open>Download\<close>\<close>

definition Header_Set :: "(string \<rightharpoonup> string) \<Rightarrow> string \<Rightarrow> string \<Rightarrow> (string \<rightharpoonup> string)" where
  "Header_Set h k v = h(k \<mapsto> v)"

definition head_request :: "HTTPDownloader \<Rightarrow> string \<Rightarrow> request" where
  "head_request d src =
     \<lparr>Method = ''HEAD'', URL = src,
      Header = (if userAgent d \<noteq> '''' then Header_Set Map.empty ''User-Agent'' (userAgent d)
                else Map.empty)\<rparr>"

definition range_value :: "nat \<Rightarrow> string" where
  "range_value sz = ''bytes='' @ show_nat sz @ ''-''"

text \<open>
  Lines 125 to 165: the seek to the start, the reset of \<open>d.progress\<close>, the HEAD
  probe and the attempt to resume. An early return is \<open>Inl\<close>; otherwise the request
  as it stands before line 168, the downloader and the file.
\<close>

definition probe_ok :: "error + response \<Rightarrow> bool" where
  "probe_ok r =
     (case r of
        Inl err \<Rightarrow> False
      | Inr resp \<Rightarrow> 200 \<le> StatusCode resp \<and> StatusCode resp < 300)"

definition accepts_ranges :: "error + response \<Rightarrow> bool" where
  "accepts_ranges r =
     (case r of
        Inl err \<Rightarrow> False
      | Inr resp \<Rightarrow> RespHeader resp ''Accept-Ranges'' = Some ''bytes'')"

definition probe_phase :: "dl_env \<Rightarrow> HTTPDownloader \<Rightarrow> os_File \<Rightarrow> string \<Rightarrow>
    (error \<times> HTTPDownloader \<times> os_File) + (request \<times> HTTPDownloader \<times> os_File)" where
  "probe_phase env d dst src =
     (case seek_start env of
        Some err \<Rightarrow> Inl (err, d, dst)
      | None \<Rightarrow>
         (let dst0 = dst\<lparr>offset := 0\<rparr>;
              d0 = d\<lparr>progress := 0\<rparr>
          in case http_NewRequest env of
               Some err \<Rightarrow> Inl (err, d0, dst0)
             | None \<Rightarrow>
                 let req = head_request d0 src;
                     resp = http_Do env req
                 in if probe_ok resp then
                      if accepts_ranges resp then
                        if dst_Stat env = None then
                          if seek_end env = None then
                            let fi_Size = length (contents dst0) in
                            Inr (req\<lparr>Header := Header_Set (Header req) ''Range'' (range_value fi_Size)\<rparr>,
                                 d0\<lparr>progress := of_nat fi_Size\<rparr>,
                                 dst0\<lparr>offset := fi_Size\<rparr>)
                          else Inr (req, d0, dst0)
                        else Inr (req, d0, dst0)
                      else Inr (req, d0, dst0)
                    else Inr (req, d0, dst0)))"

text \<open>
  Lines 167 to 194: the GET, the computation of \<open>d.total\<close> and the loop.
  \<open>uint(resp.ContentLength)\<close> reinterprets the \<open>int64\<close> as unsigned.
\<close>

definition get_phase :: "dl_env \<Rightarrow> request \<Rightarrow> HTTPDownloader \<Rightarrow> os_File \<Rightarrow>
    (error option \<times> HTTPDownloader \<times> os_File) option" where
  "get_phase env req d dst =
     (case http_Do env (req\<lparr>Method := ''GET''\<rparr>) of
        Inl err \<Rightarrow> Some (Some err, d, dst)
      | Inr resp \<Rightarrow>
          stream_loop (dst_Write env) 0 (Body resp)
            (d\<lparr>total := progress d + word_of_int (ContentLength resp)\<rparr>) dst)"

definition Download :: "dl_env \<Rightarrow> HTTPDownloader \<Rightarrow> os_File \<Rightarrow> string \<Rightarrow>
    (error option \<times> HTTPDownloader \<times> os_File) option" where
  "Download env d dst src =
     (case probe_phase env d dst src of
        Inl (err, d', dst') \<Rightarrow> Some (Some err, d', dst')
      | Inr (req, d', dst') \<Rightarrow> get_phase env req d' dst')"

section \<open>Example values\<close>

definition example_config :: "unit DownloadConfig" where
  "example_config =
     \<lparr>Url = ''http://example.com/a.iso'', TargetPath = ''/tmp/a.iso'', DownloaderMap = None,
      CopyFile = False, Hash = (), Checksum = [], UserAgent = ''packer''\<rparr>"

definition example_client :: "Downloader option \<Rightarrow> unit DownloadClient" where
  "example_client dl = \<lparr>config = example_config, downloader = dl\<rparr>"

text \<open>
  An environment in which every call on the file succeeds and the server answers
  the HEAD request with \<open>probe\<close> and the GET request with \<open>reply\<close>.
\<close>

definition example_env :: "error + response \<Rightarrow> error + response \<Rightarrow> dl_env" where
  "example_env probe reply =
     \<lparr>seek_start = None, http_NewRequest = None,
      http_Do = (\<lambda>rq. if Method rq = ''HEAD'' then probe else reply),
      dst_Stat = None, seek_end = None, dst_Write = (\<lambda>k. None)\<rparr>"

definition example_response :: "int \<Rightarrow> (string \<rightharpoonup> string) \<Rightarrow> int \<Rightarrow> read_result list \<Rightarrow> response" where
  "example_response st hdr cl rs = \<lparr>StatusCode = st, RespHeader = hdr, ContentLength = cl, Body = rs\<rparr>"

definition example_downloader :: HTTPDownloader where
  "example_downloader = \<lparr>progress = 0, total = 0, userAgent = ''packer''\<rparr>"

definition example_url :: string where
  "example_url = ''http://example.com/a.iso''"

text \<open>
  \<open>with_GET_status st env\<close> is the environment \<open>env\<close> in which every response to a
  GET request carries the status code \<open>st\<close> and is otherwise as it was.
\<close>

definition with_GET_status :: "int \<Rightarrow> dl_env \<Rightarrow> dl_env" where
  "with_GET_status st env =
     env\<lparr>http_Do := (\<lambda>rq. if Method rq = ''GET''
                           then (case http_Do env rq of
                                   Inl err \<Rightarrow> Inl err
                                 | Inr resp \<Rightarrow> Inr (resp\<lparr>StatusCode := st\<rparr>))
                           else http_Do env rq)\<rparr>"

section \<open>Properties of the rounding\<close>

lemma bitlen_pos_bounds:
  assumes "0 < n"
  shows "1 \<le> bitlen n" "(2::rat) powi (bitlen n - 1) \<le> of_int n" "of_int n + 1 \<le> (2::rat) powi bitlen n"
proof -
  show b1: "1 \<le> bitlen n" using assms bitlen_eq_zero_iff [of n] bitlen_nonneg [of n] by linarith
  have lo: "2 ^ nat (bitlen n - 1) \<le> n" and hi: "n < 2 ^ nat (bitlen n)"
    using bitlen_bounds [OF assms] by auto
  have "(2::rat) powi (bitlen n - 1) = 2 ^ nat (bitlen n - 1)"
    using b1 by (simp add: power_int_def)
  also have "\<dots> = of_int (2 ^ nat (bitlen n - 1))" by simp
  also have "\<dots> \<le> of_int n" using lo by (simp only: of_int_le_iff)
  finally show "(2::rat) powi (bitlen n - 1) \<le> of_int n" .
  have "n + 1 \<le> 2 ^ nat (bitlen n)" using hi by simp
  then have "(of_int (n + 1) :: rat) \<le> of_int (2 ^ nat (bitlen n))" by (simp only: of_int_le_iff)
  also have "\<dots> = 2 powi bitlen n" using b1 by (simp add: power_int_def)
  finally show "of_int n + 1 \<le> (2::rat) powi bitlen n" by simp
qed

lemma ilog2_bounds:
  assumes "0 < x"
  shows "2 powi ilog2 x \<le> x" "x < 2 powi (ilog2 x + 1)"
proof -
  have "2 powi ilog2 x \<le> x \<and> x < 2 powi (ilog2 x + 1)"
  proof (cases "1 \<le> x")
    case True
    then have n: "0 < \<lfloor>x\<rfloor>" by linarith
    have e: "ilog2 x = bitlen \<lfloor>x\<rfloor> - 1" using True by (simp add: ilog2_def)
    have "(2::rat) powi (bitlen \<lfloor>x\<rfloor> - 1) \<le> of_int \<lfloor>x\<rfloor>" by (rule bitlen_pos_bounds(2) [OF n])
    also have "\<dots> \<le> x" by simp
    finally have lo: "2 powi ilog2 x \<le> x" by (simp add: e)
    have "x < of_int \<lfloor>x\<rfloor> + 1" by linarith
    also have "\<dots> \<le> 2 powi bitlen \<lfloor>x\<rfloor>" by (rule bitlen_pos_bounds(3) [OF n])
    finally have "x < 2 powi (ilog2 x + 1)" by (simp add: e)
    with lo show ?thesis by simp
  next
    case False
    define y where "y = 1 / x"
    define c where "c = \<lceil>y\<rceil> - 1"
    have y1: "1 < y" using False assms by (simp add: y_def)
    have c: "0 < c" unfolding c_def using y1 by linarith
    have e: "ilog2 x = - bitlen c" using False by (simp add: ilog2_def c_def y_def)
    have x: "x = 1 / y" using assms by (simp add: y_def)
    have "y \<le> of_int c + 1" unfolding c_def by simp
    also have "\<dots> \<le> 2 powi bitlen c" by (rule bitlen_pos_bounds(3) [OF c])
    finally have "1 / (2 powi bitlen c) \<le> 1 / y" using y1 by (simp add: frac_le)
    then have "2 powi (- bitlen c) \<le> 1 / y" by (simp add: power_int_minus_divide)
    then have lo: "2 powi ilog2 x \<le> x" unfolding e x [symmetric] .
    have "(2::rat) powi (bitlen c - 1) \<le> of_int c" by (rule bitlen_pos_bounds(2) [OF c])
    also have "\<dots> < y" unfolding c_def by linarith
    finally have "1 / y < 1 / (2 powi (bitlen c - 1))" by (simp add: frac_less2)
    moreover have "(2::rat) powi (- bitlen c + 1) = 1 / 2 powi (bitlen c - 1)"
      using power_int_minus_divide [of "2::rat" "bitlen c - 1"] by simp
    ultimately have "1 / y < 2 powi (- bitlen c + 1)" by simp
    then have "x < 2 powi (ilog2 x + 1)" unfolding e x [symmetric] .
    with lo show ?thesis by simp
  qed
  then show "2 powi ilog2 x \<le> x" "x < 2 powi (ilog2 x + 1)" by simp_all
qed

lemma ilog2_mono:
  assumes "0 < x" "x \<le> y"
  shows "ilog2 x \<le> ilog2 y"
proof (rule ccontr)
  assume "\<not> ilog2 x \<le> ilog2 y"
  then have "ilog2 y + 1 \<le> ilog2 x" by simp
  then have "(2::rat) powi (ilog2 y + 1) \<le> 2 powi ilog2 x"
    by (rule power_int_increasing) simp
  moreover have "y < 2 powi (ilog2 y + 1)" using assms by (intro ilog2_bounds) simp
  moreover have "2 powi ilog2 x \<le> x" using assms by (intro ilog2_bounds)
  ultimately show False using assms by linarith
qed

lemma round_even_bounds: "\<lfloor>q\<rfloor> \<le> round_even q" "round_even q \<le> \<lfloor>q\<rfloor> + 1"
  by (simp_all add: round_even_def Let_def)

lemma round_even_of_int: "round_even (of_int n) = n"
  by (simp add: round_even_def)

lemma round_even_mono:
  assumes "q1 \<le> q2"
  shows "round_even q1 \<le> round_even q2"
proof (cases "\<lfloor>q1\<rfloor> = \<lfloor>q2\<rfloor>")
  case True
  then show ?thesis using assms by (auto simp: round_even_def Let_def)
next
  case False
  then have "\<lfloor>q1\<rfloor> + 1 \<le> \<lfloor>q2\<rfloor>" using floor_mono [OF assms] by linarith
  then show ?thesis using round_even_bounds(2) [of q1] round_even_bounds(1) [of q2] by linarith
qed

lemma round_mag_alt: "round_mag x = of_int (round_even (x / 2 powi (expo x - 52))) * 2 powi (expo x - 52)"
  by (simp add: round_mag_def Let_def)

lemma round_mag_upper:
  assumes "0 < x"
  shows "round_mag x \<le> 2 powi (expo x + 1)"
proof -
  let ?u = "(2::rat) powi (expo x - 52)"
  have u: "0 < ?u" by simp
  have "x < 2 powi (ilog2 x + 1)" by (rule ilog2_bounds [OF assms])
  also have "\<dots> \<le> 2 powi (expo x + 1)" by (rule power_int_increasing) (simp_all add: expo_def)
  also have "\<dots> = 2 ^ 53 * ?u" using power_int_add [of "2::rat" 53 "expo x - 52"] by (simp add: algebra_simps)
  finally have "x / ?u \<le> of_int (2 ^ 53)" using u by (simp add: pos_divide_le_eq)
  then have "round_even (x / ?u) \<le> 2 ^ 53" using round_even_mono round_even_of_int by metis
  then have "(of_int (round_even (x / ?u)) :: rat) \<le> of_int (2 ^ 53)" by (simp only: of_int_le_iff)
  then have "of_int (round_even (x / ?u)) * ?u \<le> 2 ^ 53 * ?u" using u by simp
  also have "\<dots> = 2 powi (expo x + 1)" using power_int_add [of "2::rat" 53 "expo x - 52"] by (simp add: algebra_simps)
  finally show ?thesis by (simp add: round_mag_alt)
qed

lemma round_mag_lower:
  assumes "0 < x" "- 1022 \<le> ilog2 x"
  shows "2 powi (expo x) \<le> round_mag x"
proof -
  let ?u = "(2::rat) powi (expo x - 52)"
  have u: "0 < ?u" by simp
  have e: "expo x = ilog2 x" using assms by (simp add: expo_def)
  have "2 ^ 52 * ?u = 2 powi (expo x)" using power_int_add [of "2::rat" 52 "expo x - 52"] by (simp add: algebra_simps)
  also have "\<dots> \<le> x" unfolding e by (rule ilog2_bounds [OF assms(1)])
  finally have "of_int (2 ^ 52) \<le> x / ?u" using u by (simp add: pos_le_divide_eq)
  then have "2 ^ 52 \<le> round_even (x / ?u)" using round_even_mono round_even_of_int by metis
  then have "(of_int (2 ^ 52) :: rat) \<le> of_int (round_even (x / ?u))" by (simp only: of_int_le_iff)
  then have "of_int (2 ^ 52) * ?u \<le> of_int (round_even (x / ?u)) * ?u"
    using u by (intro mult_right_mono) simp_all
  moreover have "of_int (2 ^ 52) * ?u = 2 powi (expo x)"
    using power_int_add [of "2::rat" 52 "expo x - 52"] by (simp add: algebra_simps)
  ultimately show ?thesis by (simp only: round_mag_alt)
qed

lemma round_mag_nonneg:
  assumes "0 \<le> x"
  shows "0 \<le> round_mag x"
proof -
  have "0 \<le> x / 2 powi (expo x - 52)" using assms by simp
  then have "0 \<le> round_even (x / 2 powi (expo x - 52))"
    using round_even_mono round_even_of_int [of 0] by (metis of_int_0)
  then show ?thesis by (simp add: round_mag_alt)
qed

lemma round_mag_mono:
  assumes "0 < x" "x \<le> y"
  shows "round_mag x \<le> round_mag y"
proof (cases "expo x = expo y")
  case True
  have "x / 2 powi (expo y - 52) \<le> y / 2 powi (expo y - 52)" using assms by (simp add: divide_right_mono)
  then have "round_even (x / 2 powi (expo y - 52)) \<le> round_even (y / 2 powi (expo y - 52))"
    by (rule round_even_mono)
  then have "(of_int (round_even (x / 2 powi (expo y - 52))) :: rat) \<le> of_int (round_even (y / 2 powi (expo y - 52)))"
    by (simp only: of_int_le_iff)
  then show ?thesis by (simp add: round_mag_alt True)
next
  case False
  have y: "0 < y" using assms by simp
  have "expo x \<le> expo y" using ilog2_mono [OF assms] by (simp add: expo_def)
  with False have lt: "expo x + 1 \<le> expo y" by simp
  then have "- 1022 \<le> ilog2 y" by (simp add: expo_def)
  then have "2 powi (expo y) \<le> round_mag y" by (rule round_mag_lower [OF y])
  moreover have "(2::rat) powi (expo x + 1) \<le> 2 powi (expo y)" using lt by (rule power_int_increasing) simp
  moreover have "round_mag x \<le> 2 powi (expo x + 1)" by (rule round_mag_upper [OF assms(1)])
  ultimately show ?thesis by linarith
qed

lemma ilog2_eqI:
  assumes "0 < x" "2 powi e \<le> x" "x < 2 powi (e + 1)"
  shows "ilog2 x = e"
proof -
  have "(2::rat) powi ilog2 x < 2 powi (e + 1)"
    using ilog2_bounds(1) [OF assms(1)] assms(3) by linarith
  then have a: "ilog2 x < e + 1"
    using power_int_increasing [of "e + 1" "ilog2 x" "2::rat"] by (cases "ilog2 x < e + 1") auto
  have "(2::rat) powi e < 2 powi (ilog2 x + 1)"
    using ilog2_bounds(2) [OF assms(1)] assms(2) by linarith
  then have b: "e < ilog2 x + 1"
    using power_int_increasing [of "ilog2 x + 1" e "2::rat"] by (cases "e < ilog2 x + 1") auto
  from a b show ?thesis by simp
qed

lemma round_mag_exact:
  assumes "0 < m" "m < 2 ^ 53" "- 1074 \<le> e"
  shows "round_mag (of_int m * 2 powi e) = of_int m * 2 powi e"
proof -
  let ?x = "of_int m * (2::rat) powi e"
  have x: "0 < ?x" using assms(1) by simp
  have "?x < 2 ^ 53 * 2 powi e" using assms(2) by simp
  also have "\<dots> = 2 powi (e + 53)" using power_int_add [of "2::rat" e 53] by simp
  finally have "(2::rat) powi ilog2 ?x < 2 powi (e + 53)" using ilog2_bounds(1) [OF x] by linarith
  then have "ilog2 ?x < e + 53"
    using power_int_increasing [of "e + 53" "ilog2 ?x" "2::rat"] by (cases "ilog2 ?x < e + 53") auto
  then have k: "0 \<le> e + 52 - expo ?x" using assms(3) by (simp add: expo_def)
  have "?x / 2 powi (expo ?x - 52) = of_int m * (2 powi e / 2 powi (expo ?x - 52))" by simp
  also have "2 powi e / (2::rat) powi (expo ?x - 52) = 2 powi (e - (expo ?x - 52))"
    by (simp add: power_int_diff)
  also have "\<dots> = 2 ^ nat (e + 52 - expo ?x)" using k by (simp add: power_int_def algebra_simps)
  also have "of_int m * (2::rat) ^ nat (e + 52 - expo ?x) = of_int (m * 2 ^ nat (e + 52 - expo ?x))" by simp
  finally have "round_even (?x / 2 powi (expo ?x - 52)) = m * 2 ^ nat (e + 52 - expo ?x)"
    by (simp only: round_even_of_int)
  then have "round_mag ?x = of_int (m * 2 ^ nat (e + 52 - expo ?x)) * 2 powi (expo ?x - 52)"
    by (simp only: round_mag_alt)
  also have "\<dots> = of_int m * (2 powi (e + 52 - expo ?x) * 2 powi (expo ?x - 52))"
    using k by (simp add: power_int_def)
  also have "2 powi (e + 52 - expo ?x) * (2::rat) powi (expo ?x - 52) = 2 powi e"
    using power_int_add [of "2::rat" "e + 52 - expo ?x" "expo ?x - 52"] by simp
  finally show ?thesis .
qed

lemma float64_round_exact:
  assumes "0 < m" "m < 2 ^ 53" "- 1074 \<le> e" "e \<le> 971"
  shows "float64_round (of_int m * 2 powi e) = Finite (of_int m * 2 powi e)"
proof -
  let ?x = "of_int m * (2::rat) powi e"
  have x: "0 < ?x" using assms(1) by simp
  have "?x < 2 ^ 53 * 2 powi e" using assms(2) by simp
  also have "\<dots> = 2 powi (e + 53)" using power_int_add [of "2::rat" e 53] by simp
  also have "\<dots> \<le> 2 powi 1024" using assms(4) by (intro power_int_increasing) simp_all
  finally have "?x < 2 ^ 1024" by simp
  then show ?thesis
    using x round_mag_exact [OF assms(1-3)] by (simp add: float64_round_def Let_def)
qed

lemma float64_round_of_int:
  assumes "0 < m" "m < 2 ^ 53"
  shows "float64_round (of_int m) = Finite (of_int m)"
  using float64_round_exact [OF assms, of 0] by simp

lemma float64_round_fix_1: "float64_round 1 = Finite 1"
  using float64_round_of_int [of 1] by simp

lemma float64_round_fix_100: "float64_round 100 = Finite 100"
  using float64_round_of_int [of 100] by simp

lemma float64_round_fix_2_64: "float64_round (2 ^ 64) = Finite (2 ^ 64)"
  using float64_round_exact [of 1 64] by simp

lemma float64_round_le:
  assumes "0 \<le> x" "x \<le> c" "float64_round c = Finite c"
  shows "\<exists>r. float64_round x = Finite r \<and> 0 \<le> r \<and> r \<le> c"
proof (cases "x = 0")
  case True
  then show ?thesis using assms by (simp add: float64_round_def)
next
  case False
  then have x: "0 < x" using assms by simp
  then have c: "0 < c" using assms by simp
  have rc: "round_mag c < 2 ^ 1024 \<and> round_mag c = c"
    using assms(3) c by (auto simp: float64_round_def Let_def split: if_splits)
  have "round_mag x \<le> round_mag c" using x assms(2) by (rule round_mag_mono)
  moreover have "0 \<le> round_mag x" using x by (intro round_mag_nonneg) simp
  ultimately show ?thesis using rc x by (simp add: float64_round_def Let_def)
qed

lemma float64_round_ge:
  assumes "c \<le> x" "0 < c" "float64_round c = Finite c" "float64_round x = Finite r"
  shows "c \<le> r"
proof -
  have x: "0 < x" using assms by simp
  have rc: "round_mag c = c"
    using assms(3,2) by (auto simp: float64_round_def Let_def split: if_splits)
  have rx: "round_mag x = r"
    using assms(4) x by (auto simp: float64_round_def Let_def split: if_splits)
  have "round_mag c \<le> round_mag x" using assms(2,1) by (rule round_mag_mono)
  then show ?thesis by (simp add: rc rx)
qed

lemma float64_round_mono:
  assumes "0 \<le> x" "x \<le> y" "float64_round x = Finite rx" "float64_round y = Finite ry"
  shows "rx \<le> ry"
proof (cases "x = 0")
  case True
  then have "rx = 0" using assms(3) by (simp add: float64_round_def)
  moreover have "0 \<le> ry" using assms(4) round_mag_nonneg [of "\<bar>y\<bar>"] assms(1,2)
    by (auto simp: float64_round_def Let_def split: if_splits)
  ultimately show ?thesis by simp
next
  case False
  then have x: "0 < x" using assms by simp
  then have y: "0 < y" using assms by simp
  have "round_mag x = rx" using assms(3) x by (auto simp: float64_round_def Let_def split: if_splits)
  moreover have "round_mag y = ry" using assms(4) y by (auto simp: float64_round_def Let_def split: if_splits)
  ultimately show ?thesis using round_mag_mono [OF x assms(2)] by simp
qed

lemma float64_of_uint_Finite:
  "\<exists>r. float64_of_uint u = Finite r \<and> 0 \<le> r"
proof -
  have "unat u < 2 ^ LENGTH(64)" by (rule unsigned_less)
  then have "unat u \<le> 2 ^ 64" by simp
  then have "(of_nat (unat u) :: rat) \<le> of_nat (2 ^ 64)" by (rule of_nat_mono)
  then have h: "(of_nat (unat u) :: rat) \<le> 2 ^ 64" by (simp only: of_nat_power of_nat_numeral)
  show ?thesis
    unfolding float64_of_uint_def
    using float64_round_le [OF of_nat_0_le_iff h float64_round_fix_2_64] by blast
qed

lemma percent_range:
  assumes "float64_of_uint p = Finite a" "float64_of_uint t = Finite b" "p \<le> t" "0 < t"
  shows "0 \<le> float64_to_int unrep (float64_mul (float64_div (Finite a) (Finite b)) (Finite 100))
       \<and> float64_to_int unrep (float64_mul (float64_div (Finite a) (Finite b)) (Finite 100)) \<le> 100"
proof -
  have "unat p \<le> unat t" using assms(3) by (simp add: word_le_nat_alt)
  then have pt: "(of_nat (unat p) :: rat) \<le> of_nat (unat t)" by (rule of_nat_mono)
  have "1 \<le> unat t" using assms(4) by (simp add: word_less_nat_alt Suc_le_eq)
  then have "(of_nat 1 :: rat) \<le> of_nat (unat t)" by (rule of_nat_mono)
  then have t1: "(1 :: rat) \<le> of_nat (unat t)" by (simp only: of_nat_1)
  have a0: "0 \<le> a" using float64_of_uint_Finite [of p] assms(1) by auto
  have fa: "float64_round (of_nat (unat p)) = Finite a" using assms(1) unfolding float64_of_uint_def .
  have fb: "float64_round (of_nat (unat t)) = Finite b" using assms(2) unfolding float64_of_uint_def .
  have ab: "a \<le> b" by (rule float64_round_mono [OF of_nat_0_le_iff pt fa fb])
  have b1: "1 \<le> b" by (rule float64_round_ge [OF t1 zero_less_one float64_round_fix_1 fb])
  have "0 \<le> a / b" "a / b \<le> 1" using a0 ab b1 by simp_all
  then obtain q where q: "float64_round (a / b) = Finite q" "0 \<le> q" "q \<le> 1"
    using float64_round_le [of "a / b" 1] float64_round_fix_1 by auto
  have "0 \<le> q * 100" "q * 100 \<le> 100" using q by simp_all
  then obtain r where r: "float64_round (q * 100) = Finite r" "0 \<le> r" "r \<le> 100"
    using float64_round_le [of "q * 100" 100] float64_round_fix_100 by auto
  have tr: "0 \<le> trunc r" "trunc r \<le> 100" using r by (simp_all add: trunc_def floor_le_iff) 
  have "float64_mul (float64_div (Finite a) (Finite b)) (Finite 100) = Finite r"
    using b1 q r by simp
  then show ?thesis using tr by (simp add: float64_to_int_def)
qed

section \<open>\<open>PercentProgress\<close>\<close>

lemma float64_of_uint_0: "float64_of_uint 0 = Finite 0"
  by (simp add: float64_of_uint_def float64_round_def)

lemma float64_of_uint_pos:
  assumes "p \<noteq> 0"
  shows "\<exists>a. float64_of_uint p = Finite a \<and> 0 < a"
proof -
  obtain a where a: "float64_of_uint p = Finite a" using float64_of_uint_Finite [of p] by blast
  have "1 \<le> unat p" using assms by (simp add: unat_gt_0 Suc_le_eq)
  then have "(of_nat 1 :: rat) \<le> of_nat (unat p)" by (rule of_nat_mono)
  then have t1: "(1 :: rat) \<le> of_nat (unat p)" by (simp only: of_nat_1)
  have fa: "float64_round (of_nat (unat p)) = Finite a" using a unfolding float64_of_uint_def .
  have "1 \<le> a" by (rule float64_round_ge [OF t1 zero_less_one float64_round_fix_1 fa])
  then show ?thesis using a by auto
qed

lemma percent_zero_total:
  assumes "Total dl = 0"
  shows "float64_mul (float64_div (float64_of_uint (Progress dl)) (float64_of_uint (Total dl)))
           (Finite 100) = (if Progress dl = 0 then NaN else PosInf)"
proof (cases "Progress dl = 0")
  case True
  then show ?thesis by (simp add: assms float64_of_uint_0)
next
  case False
  from float64_of_uint_pos [OF this] obtain a where "float64_of_uint (Progress dl) = Finite a" "0 < a"
    by blast
  then show ?thesis using False by (simp add: assms float64_of_uint_0)
qed

text \<open>
  C1, as the code has it. \<open>PercentProgress\<close> returns -1 when no downloader is
  active. With an active downloader it returns the truncated \<open>float64\<close> value of
  \<open>progress / total * 100\<close>. That value lies in [0, 100] whenever the downloader's
  total is positive and its progress does not exceed its total. With a total of
  0 the quotient is a NaN (progress 0) or the positive infinity; no error is
  raised, and the integer returned is what the implementation makes of that
  value.
\<close>

theorem PercentProgress_bounded:
  "(downloader d = None \<longrightarrow> PercentProgress unrep d = - 1)
   \<and> (\<forall>dl. downloader d = Some dl \<and> 0 < Total dl \<and> Progress dl \<le> Total dl
         \<longrightarrow> 0 \<le> PercentProgress unrep d \<and> PercentProgress unrep d \<le> 100)
   \<and> (\<forall>dl. downloader d = Some dl \<and> Total dl = 0
         \<longrightarrow> PercentProgress unrep d = unrep (if Progress dl = 0 then NaN else PosInf))"
proof (intro conjI impI allI)
  assume "downloader d = None"
  then show "PercentProgress unrep d = - 1" by (simp add: PercentProgress_def)
next
  fix dl
  assume h: "downloader d = Some dl \<and> 0 < Total dl \<and> Progress dl \<le> Total dl"
  obtain a where a: "float64_of_uint (Progress dl) = Finite a"
    using float64_of_uint_Finite [of "Progress dl"] by blast
  obtain b where b: "float64_of_uint (Total dl) = Finite b"
    using float64_of_uint_Finite [of "Total dl"] by blast
  have "0 \<le> float64_to_int unrep (float64_mul (float64_div (Finite a) (Finite b)) (Finite 100))
       \<and> float64_to_int unrep (float64_mul (float64_div (Finite a) (Finite b)) (Finite 100)) \<le> 100"
    by (rule percent_range [OF a b]) (simp_all add: h)
  then show "0 \<le> PercentProgress unrep d" "PercentProgress unrep d \<le> 100"
    using h by (simp_all add: PercentProgress_def a b)
next
  fix dl
  assume h: "downloader d = Some dl \<and> Total dl = 0"
  then have "PercentProgress unrep d
      = float64_to_int unrep (if Progress dl = 0 then NaN else PosInf)"
    using percent_zero_total [of dl] by (simp add: PercentProgress_def)
  then show "PercentProgress unrep d = unrep (if Progress dl = 0 then NaN else PosInf)"
    by (simp add: float64_to_int_def)
qed

text \<open>
  The theorem at a client without a downloader, at a client whose downloader
  reports 4096 of 10000 bytes, and at one whose downloader has not started.
\<close>

theorem PercentProgress_bounded_witness:
  "PercentProgress amd64_unrep (example_client None) = - 1
   \<and> 0 \<le> PercentProgress amd64_unrep
       (example_client (Some (HTTPImpl \<lparr>progress = 4096, total = 10000, userAgent = ''packer''\<rparr>)))
   \<and> PercentProgress amd64_unrep
       (example_client (Some (HTTPImpl \<lparr>progress = 4096, total = 10000, userAgent = ''packer''\<rparr>))) \<le> 100
   \<and> PercentProgress amd64_unrep
       (example_client (Some (HTTPImpl \<lparr>progress = 0, total = 0, userAgent = ''packer''\<rparr>)))
       = amd64_unrep NaN"
  using PercentProgress_bounded [of "example_client None" amd64_unrep]
    PercentProgress_bounded [of "example_client (Some (HTTPImpl \<lparr>progress = 4096, total = 10000, userAgent = ''packer''\<rparr>))" amd64_unrep]
    PercentProgress_bounded [of "example_client (Some (HTTPImpl \<lparr>progress = 0, total = 0, userAgent = ''packer''\<rparr>))" amd64_unrep]
  by (simp add: example_client_def)

text \<open>
  C1 as stated fails. A downloader that reports 2 bytes of a total of 1 gives 200
  (every \<open>float64\<close> operation is exact there). A downloader whose total is 0 gives,
  on amd64, the smallest \<open>int64\<close>, which is neither 0 nor -1.
\<close>

theorem PercentProgress_outside:
  "PercentProgress amd64_unrep
     (example_client (Some (HTTPImpl \<lparr>progress = 2, total = 1, userAgent = ''packer''\<rparr>))) = 200
   \<and> PercentProgress amd64_unrep
     (example_client (Some (HTTPImpl \<lparr>progress = 0, total = 0, userAgent = ''packer''\<rparr>)))
       = - 9223372036854775808
   \<and> PercentProgress amd64_unrep
     (example_client (Some (HTTPImpl \<lparr>progress = 1, total = 0, userAgent = ''packer''\<rparr>)))
       = - 9223372036854775808"
  using float64_round_of_int [of 1] float64_round_of_int [of 2] float64_round_of_int [of 200]
  by (simp add: PercentProgress_def example_client_def float64_of_uint_def float64_to_int_def
      float64_round_def trunc_def amd64_unrep_def)

section \<open>\<open>Get\<close> and the downloader field\<close>

lemma Get_calls_downloader: "downloader (Get_calls envs d) = downloader d"
  by (induction envs arbitrary: d) (auto simp: Get_def Let_def split: sum.splits option.splits)

text \<open>
  C7. \<open>Get\<close> leaves the client's \<open>downloader\<close> field as it was, whatever
  \<open>os.Getwd\<close> and go-getter return; so for a client made by \<open>NewDownloadClient\<close>,
  \<open>PercentProgress\<close> is -1 after any number of \<open>Get\<close> calls (none included),
  failed or successful.
\<close>

theorem Get_never_activates:
  "downloader (snd (Get env d)) = downloader d
   \<and> PercentProgress unrep (Get_calls envs (snd (NewDownloadClient c))) = - 1"
  by (auto simp: Get_calls_downloader PercentProgress_def NewDownloadClient_def Let_def Get_def
      split: sum.splits option.splits)

section \<open>\<open>NewDownloadClient\<close>\<close>

text \<open>
  C10. With a nil \<open>DownloaderMap\<close>, \<open>NewDownloadClient\<close> changes the configuration
  in that one field: the new registry has exactly the keys \<open>http\<close> and \<open>https\<close>, each
  bound to an \<open>HTTPDownloader\<close> with zero counters and the configuration's user
  agent. With a non-nil \<open>DownloaderMap\<close> the configuration is left as it was. The
  client refers to that same configuration.
\<close>

theorem NewDownloadClient_registry:
  "(DownloaderMap c = None \<longrightarrow>
      (\<exists>m. fst (NewDownloadClient c) = c\<lparr>DownloaderMap := Some m\<rparr>
           \<and> dom m = {''http'', ''https''}
           \<and> m ''http'' = Some (HTTPImpl \<lparr>progress = 0, total = 0, userAgent = UserAgent c\<rparr>)
           \<and> m ''https'' = Some (HTTPImpl \<lparr>progress = 0, total = 0, userAgent = UserAgent c\<rparr>)))
   \<and> (DownloaderMap c \<noteq> None \<longrightarrow> fst (NewDownloadClient c) = c)
   \<and> config (snd (NewDownloadClient c)) = fst (NewDownloadClient c)"
proof (intro conjI impI)
  assume n: "DownloaderMap c = None"
  show "\<exists>m. fst (NewDownloadClient c) = c\<lparr>DownloaderMap := Some m\<rparr>
           \<and> dom m = {''http'', ''https''}
           \<and> m ''http'' = Some (HTTPImpl \<lparr>progress = 0, total = 0, userAgent = UserAgent c\<rparr>)
           \<and> m ''https'' = Some (HTTPImpl \<lparr>progress = 0, total = 0, userAgent = UserAgent c\<rparr>)"
    by (rule exI [of _ "default_DownloaderMap (UserAgent c)"])
      (auto simp: NewDownloadClient_def Let_def n default_DownloaderMap_def)
next
  assume "DownloaderMap c \<noteq> None"
  then show "fst (NewDownloadClient c) = c" by (simp add: NewDownloadClient_def Let_def)
next
  show "config (snd (NewDownloadClient c)) = fst (NewDownloadClient c)"
    by (simp add: NewDownloadClient_def Let_def)
qed

text \<open>The theorem at a configuration without a registry and at one with an empty registry.\<close>

theorem NewDownloadClient_registry_witness:
  "(\<exists>m. fst (NewDownloadClient example_config) = example_config\<lparr>DownloaderMap := Some m\<rparr>
        \<and> dom m = {''http'', ''https''}
        \<and> m ''http'' = Some (HTTPImpl \<lparr>progress = 0, total = 0, userAgent = ''packer''\<rparr>)
        \<and> m ''https'' = Some (HTTPImpl \<lparr>progress = 0, total = 0, userAgent = ''packer''\<rparr>))
   \<and> fst (NewDownloadClient (example_config\<lparr>DownloaderMap := Some Map.empty\<rparr>))
       = example_config\<lparr>DownloaderMap := Some Map.empty\<rparr>"
  using NewDownloadClient_registry [of example_config]
    NewDownloadClient_registry [of "example_config\<lparr>DownloaderMap := Some Map.empty\<rparr>"]
  by (simp add: example_config_def)

section \<open>The streaming loop\<close>

lemma write_at_append: "write_at (write_at f a) b = write_at f (a @ b)"
  by (auto simp: write_at_def min_def add_ac)

lemma unat_add_of_nat:
  assumes "unat (p :: uint) + n < 2 ^ 64"
  shows "unat (p + of_nat n) = unat p + n"
proof -
  have "unat (p + of_nat n) = (unat p + n) mod 2 ^ 64"
    by (simp add: unat_word_ariths unat_of_nat mod_add_right_eq)
  then show ?thesis using assms by simp
qed

lemma body_bytes_reads_of: "body_bytes (reads_of cs fin) = concat cs @ fin"
  by (induction cs) (simp_all add: reads_of_def)

lemma stream_loop_total:
  "stream_loop wr k rs d f = Some (e, d', f') \<Longrightarrow> total d' = total d \<and> userAgent d' = userAgent d"
proof (induction wr k rs d f rule: stream_loop.induct)
  case (1 wr k d f)
  then show ?case by simp
next
  case (2 wr k buf err rest d f)
  then show ?case by (auto simp: Let_def split: if_splits option.splits)
qed

lemma stream_loop_success:
  "stream_loop wr k rs d f = Some (None, d', f') \<Longrightarrow>
     d' = d\<lparr>progress := progress d + of_nat (length (body_bytes rs))\<rparr>
     \<and> f' = write_at f (body_bytes rs)"
proof (induction wr k rs d f rule: stream_loop.induct)
  case (1 wr k d f)
  then show ?case by simp
next
  case (2 wr k buf err rest d f)
  show ?case
  proof (cases "err = None")
    case True
    with "2.prems" have w: "wr k = None" by (auto simp: Let_def split: option.splits)
    from "2.prems" True w have
      "stream_loop wr (Suc k) rest (d\<lparr>progress := progress d + of_nat (length buf)\<rparr>) (write_at f buf)
         = Some (None, d', f')" by (simp add: Let_def)
    from "2.IH" [OF _ refl w refl _ this] True
    show ?thesis by (simp add: write_at_append add.assoc)
  next
    case False
    with "2.prems" show ?thesis by (auto simp: Let_def split: if_splits option.splits)
  qed
qed

lemma stream_loop_reads_of:
  assumes "\<forall>j. wr j = None"
  shows "stream_loop wr k (reads_of cs fin) d f =
     Some (None, d\<lparr>progress := progress d + of_nat (length (concat cs @ fin))\<rparr>,
           write_at f (concat cs @ fin))"
  using assms
proof (induction cs arbitrary: k d f)
  case Nil
  then show ?case by (simp add: reads_of_def)
next
  case (Cons c cs)
  have "stream_loop wr k (reads_of (c # cs) fin) d f =
      stream_loop wr (Suc k) (reads_of cs fin) (d\<lparr>progress := progress d + of_nat (length c)\<rparr>) (write_at f c)"
    using Cons.prems by (simp add: reads_of_def Let_def)
  then show ?case using Cons.IH [OF Cons.prems] by (simp add: write_at_append add.assoc)
qed

lemma loop_states_nonempty: "loop_states wr k rs d \<noteq> []"
  by (induction wr k rs d rule: loop_states.induct) (auto simp: Let_def)

lemma loop_states_last:
  "stream_loop wr k rs d f = Some (e, d', f') \<Longrightarrow> last (loop_states wr k rs d) = d'"
proof (induction wr k rs d f rule: stream_loop.induct)
  case (1 wr k d f)
  then show ?case by simp
next
  case (2 wr k buf err rest d f)
  from 2 show ?case by (auto simp: Let_def loop_states_nonempty split: if_splits option.splits)
qed

lemma loop_states_total:
  "s \<in> set (loop_states wr k rs d) \<Longrightarrow> total s = total d \<and> userAgent s = userAgent d"
proof (induction wr k rs d rule: loop_states.induct)
  case (1 wr k d)
  then show ?case by simp
next
  case (2 wr k buf err rest d)
  then show ?case by (auto simp: Let_def split: if_splits)
qed

lemma loop_states_sorted:
  "unat (progress d) + length (concat (map fst rs)) < 2 ^ 64 \<Longrightarrow>
     sorted (map progress (loop_states wr k rs d))
     \<and> (\<forall>s \<in> set (loop_states wr k rs d). progress d \<le> progress s)"
proof (induction wr k rs d rule: loop_states.induct)
  case (1 wr k d)
  then show ?case by simp
next
  case (2 wr k buf err rest d)
  let ?d' = "d\<lparr>progress := progress d + of_nat (length buf)\<rparr>"
  have nb: "unat (progress d) + length buf < 2 ^ 64" using "2.prems" by simp
  have u: "unat (progress ?d') = unat (progress d) + length buf"
    using unat_add_of_nat [OF nb] by simp
  then have le: "progress d \<le> progress ?d'" by (simp add: word_le_nat_alt)
  show ?case
  proof (cases "(err \<noteq> None \<and> err \<noteq> Some io_EOF) \<or> wr k \<noteq> None \<or> err = Some io_EOF")
    case True
    then show ?thesis using le by (auto simp: Let_def)
  next
    case False
    have "unat (progress ?d') + length (concat (map fst rest)) < 2 ^ 64"
      using "2.prems" u by simp
    from "2.IH" [OF _ refl _ this] False
    have ih: "sorted (map progress (loop_states wr (Suc k) rest ?d'))"
      "\<forall>s \<in> set (loop_states wr (Suc k) rest ?d'). progress ?d' \<le> progress s"
      by auto
    show ?thesis using False ih le by (auto simp: Let_def intro: order_trans)
  qed
qed

section \<open>The probe and the GET\<close>

lemma head_request_progress [simp]: "head_request (d\<lparr>progress := p\<rparr>) src = head_request d src"
  by (simp add: head_request_def)

lemma probe_phase_resume:
  assumes "seek_start env = None" "http_NewRequest env = None"
    and "probe_ok (http_Do env (head_request d src))"
    and "accepts_ranges (http_Do env (head_request d src))"
    and "dst_Stat env = None" "seek_end env = None"
  shows "probe_phase env d dst src =
     Inr ((head_request d src)\<lparr>Header := Header_Set (Header (head_request d src)) ''Range''
                                        (range_value (length (contents dst)))\<rparr>,
          d\<lparr>progress := of_nat (length (contents dst))\<rparr>,
          dst\<lparr>offset := length (contents dst)\<rparr>)"
  using assms by (simp add: probe_phase_def Let_def)

lemma probe_phase_no_resume:
  assumes "seek_start env = None" "http_NewRequest env = None"
    and "\<not> (probe_ok (http_Do env (head_request d src))
            \<and> accepts_ranges (http_Do env (head_request d src)))"
  shows "probe_phase env d dst src = Inr (head_request d src, d\<lparr>progress := 0\<rparr>, dst\<lparr>offset := 0\<rparr>)"
  using assms by (auto simp: probe_phase_def Let_def)

lemma probe_phase_Inr:
  assumes "probe_phase env d dst src = Inr (req, d1, dst1)"
  shows "progress d1 = of_nat (offset dst1)" "total d1 = total d" "userAgent d1 = userAgent d"
    "contents dst1 = contents dst" "offset dst1 = 0 \<or> offset dst1 = length (contents dst)"
    "Method req = ''HEAD''"
  using assms
  by (auto simp: probe_phase_def Let_def head_request_def split: option.splits if_splits)

lemma probe_phase_Inl:
  assumes "probe_phase env d dst src = Inl (e, d1, dst1)"
  shows "total d1 = total d" "contents dst1 = contents dst"
  using assms
  by (auto simp: probe_phase_def Let_def split: option.splits if_splits)

lemma Download_get_phase:
  assumes "probe_phase env d dst src = Inr (req, d1, dst1)"
  shows "Download env d dst src = get_phase env req d1 dst1"
  using assms by (simp add: Download_def)

lemma get_phase_response:
  assumes "http_Do env (req\<lparr>Method := ''GET''\<rparr>) = Inr resp"
  shows "get_phase env req d1 dst1 =
     stream_loop (dst_Write env) 0 (Body resp)
       (d1\<lparr>total := progress d1 + word_of_int (ContentLength resp)\<rparr>) dst1"
  using assms by (simp add: get_phase_def)

lemma get_phase_clean:
  assumes "http_Do env (req\<lparr>Method := ''GET''\<rparr>) = Inr resp"
    and "Body resp = reads_of cs fin" "\<forall>j. dst_Write env j = None"
  shows "get_phase env req d1 dst1 =
     Some (None,
       d1\<lparr>total := progress d1 + word_of_int (ContentLength resp),
           progress := progress d1 + of_nat (length (concat cs @ fin))\<rparr>,
       write_at dst1 (concat cs @ fin))"
  by (simp add: get_phase_def assms(1,2) stream_loop_reads_of [OF assms(3)])

lemma write_at_end:
  "write_at (f\<lparr>offset := length (contents f)\<rparr>) bs =
     \<lparr>contents = contents f @ bs, offset = length (contents f) + length bs\<rparr>"
  by (cases f) (simp add: write_at_def)

lemma write_at_start:
  "write_at (f\<lparr>offset := 0\<rparr>) bs =
     \<lparr>contents = bs @ drop (length bs) (contents f), offset = length bs\<rparr>"
  by (cases f) (simp add: write_at_def)

lemma length_write_at:
  assumes "offset f \<le> length (contents f)"
  shows "length (contents (write_at f bs)) = max (length (contents f)) (offset f + length bs)"
  using assms by (auto simp: write_at_def)

lemma show_nat_4096: "show_nat 4096 = ''4096''"
  by (simp add: show_nat.simps digit_char_def)

section \<open>Resuming\<close>

text \<open>
  C3. When the seek to the start and the construction of the request succeed, the
  HEAD probe answers with a 2xx status and \<open>Accept-Ranges: bytes\<close>, and \<open>Stat\<close> and
  the seek to the end succeed, then for a destination that holds \<open>S\<close> bytes the
  request that goes on to the GET carries \<open>Range: bytes=S-\<close>, \<open>d.progress\<close> is \<open>S\<close>
  and the write offset is \<open>S\<close>. If the GET then answers with a body that is read
  and written without error, \<open>Download\<close> returns nil, the destination is its old
  content followed by the body, and \<open>d.progress\<close> ends at \<open>S\<close> plus the body's
  length.
\<close>

theorem Download_resume:
  assumes "seek_start env = None" "http_NewRequest env = None"
    and "probe_ok (http_Do env (head_request d src))"
    and "accepts_ranges (http_Do env (head_request d src))"
    and "dst_Stat env = None" "seek_end env = None"
  shows "\<exists>req.
      probe_phase env d dst src =
        Inr (req, d\<lparr>progress := of_nat (length (contents dst))\<rparr>,
             dst\<lparr>offset := length (contents dst)\<rparr>)
      \<and> Header req ''Range'' = Some (''bytes='' @ show_nat (length (contents dst)) @ ''-'')
      \<and> Download env d dst src =
          get_phase env req (d\<lparr>progress := of_nat (length (contents dst))\<rparr>)
            (dst\<lparr>offset := length (contents dst)\<rparr>)
      \<and> (\<forall>resp cs fin.
            http_Do env (req\<lparr>Method := ''GET''\<rparr>) = Inr resp \<and> Body resp = reads_of cs fin
            \<and> (\<forall>j. dst_Write env j = None) \<longrightarrow>
            Download env d dst src =
              Some (None,
                \<lparr>progress = of_nat (length (contents dst) + length (concat cs @ fin)),
                 total = of_nat (length (contents dst)) + word_of_int (ContentLength resp),
                 userAgent = userAgent d\<rparr>,
                \<lparr>contents = contents dst @ concat cs @ fin,
                 offset = length (contents dst) + length (concat cs @ fin)\<rparr>))"
proof -
  let ?S = "length (contents dst)"
  let ?req = "(head_request d src)\<lparr>Header := Header_Set (Header (head_request d src)) ''Range''
                                        (range_value ?S)\<rparr>"
  let ?d1 = "d\<lparr>progress := of_nat ?S\<rparr>"
  let ?dst1 = "dst\<lparr>offset := ?S\<rparr>"
  have p: "probe_phase env d dst src = Inr (?req, ?d1, ?dst1)"
    by (rule probe_phase_resume [OF assms])
  have h: "Header ?req ''Range'' = Some (''bytes='' @ show_nat ?S @ ''-'')"
    by (simp add: Header_Set_def range_value_def)
  have g: "Download env d dst src = get_phase env ?req ?d1 ?dst1"
    by (rule Download_get_phase [OF p])
  have c: "Download env d dst src =
      Some (None,
        \<lparr>progress = of_nat (?S + length (concat cs @ fin)),
         total = of_nat ?S + word_of_int (ContentLength resp),
         userAgent = userAgent d\<rparr>,
        \<lparr>contents = contents dst @ concat cs @ fin, offset = ?S + length (concat cs @ fin)\<rparr>)"
    if "http_Do env (?req\<lparr>Method := ''GET''\<rparr>) = Inr resp \<and> Body resp = reads_of cs fin
        \<and> (\<forall>j. dst_Write env j = None)" for resp cs fin
  proof -
    from that have "get_phase env ?req ?d1 ?dst1 =
      Some (None,
        ?d1\<lparr>total := progress ?d1 + word_of_int (ContentLength resp),
            progress := progress ?d1 + of_nat (length (concat cs @ fin))\<rparr>,
        write_at ?dst1 (concat cs @ fin))"
      by (intro get_phase_clean) simp_all
    then show ?thesis unfolding g write_at_end by (cases d) simp
  qed
  show ?thesis
    by (rule exI [of _ ?req]) (use p h g c in blast)
qed

text \<open>
  The scenario of the specification: the destination holds 4096 bytes, the server
  accepts ranges and sends the remaining 5904 bytes. \<open>Range: bytes=4096-\<close> is
  sent, the destination ends with 10000 bytes and \<open>d.progress\<close> at 10000.
\<close>

theorem Download_resume_witness:
  "\<exists>req.
     probe_phase
       (example_env (Inr (example_response 200 [''Accept-Ranges'' \<mapsto> ''bytes''] 10000 []))
          (Inr (example_response 206 Map.empty 5904
                 (reads_of [replicate 4096 1, replicate 1808 1] []))))
       example_downloader \<lparr>contents = replicate 4096 0, offset = 17\<rparr> example_url
       = Inr (req, example_downloader\<lparr>progress := 4096\<rparr>,
              \<lparr>contents = replicate 4096 0, offset = 4096\<rparr>)
     \<and> Header req ''Range'' = Some ''bytes=4096-''
     \<and> Download
       (example_env (Inr (example_response 200 [''Accept-Ranges'' \<mapsto> ''bytes''] 10000 []))
          (Inr (example_response 206 Map.empty 5904
                 (reads_of [replicate 4096 1, replicate 1808 1] []))))
       example_downloader \<lparr>contents = replicate 4096 0, offset = 17\<rparr> example_url
       = Some (None, \<lparr>progress = 10000, total = 10000, userAgent = ''packer''\<rparr>,
               \<lparr>contents = replicate 4096 0 @ replicate 4096 1 @ replicate 1808 1,
                offset = 10000\<rparr>)"
proof -
  let ?env = "example_env (Inr (example_response 200 [''Accept-Ranges'' \<mapsto> ''bytes''] 10000 []))
          (Inr (example_response 206 Map.empty 5904
                 (reads_of [replicate 4096 1, replicate 1808 1] [])))"
  let ?dst = "\<lparr>contents = replicate 4096 0, offset = 17\<rparr>"
  have "seek_start ?env = None" "http_NewRequest ?env = None"
    "probe_ok (http_Do ?env (head_request example_downloader example_url))"
    "accepts_ranges (http_Do ?env (head_request example_downloader example_url))"
    "dst_Stat ?env = None" "seek_end ?env = None"
    by (simp_all add: example_env_def example_response_def probe_ok_def accepts_ranges_def
        head_request_def)
  from Download_resume [OF this, of ?dst]
  obtain req where r:
    "probe_phase ?env example_downloader ?dst example_url =
        Inr (req, example_downloader\<lparr>progress := of_nat (length (contents ?dst))\<rparr>,
             ?dst\<lparr>offset := length (contents ?dst)\<rparr>)"
    "Header req ''Range'' = Some (''bytes='' @ show_nat (length (contents ?dst)) @ ''-'')"
    "\<forall>resp cs fin.
        http_Do ?env (req\<lparr>Method := ''GET''\<rparr>) = Inr resp \<and> Body resp = reads_of cs fin
        \<and> (\<forall>j. dst_Write ?env j = None) \<longrightarrow>
        Download ?env example_downloader ?dst example_url =
          Some (None,
            \<lparr>progress = of_nat (length (contents ?dst) + length (concat cs @ fin)),
             total = of_nat (length (contents ?dst)) + word_of_int (ContentLength resp),
             userAgent = userAgent example_downloader\<rparr>,
            \<lparr>contents = contents ?dst @ concat cs @ fin,
             offset = length (contents ?dst) + length (concat cs @ fin)\<rparr>)"
    by blast
  have "http_Do ?env (req\<lparr>Method := ''GET''\<rparr>)
      = Inr (example_response 206 Map.empty 5904 (reads_of [replicate 4096 1, replicate 1808 1] []))
    \<and> Body (example_response 206 Map.empty 5904 (reads_of [replicate 4096 1, replicate 1808 1] []))
      = reads_of [replicate 4096 1, replicate 1808 1] []
    \<and> (\<forall>j. dst_Write ?env j = None)"
    by (simp add: example_env_def example_response_def)
  from r(3) [rule_format, OF this]
  have d: "Download ?env example_downloader ?dst example_url =
      Some (None, \<lparr>progress = 10000, total = 10000, userAgent = ''packer''\<rparr>,
               \<lparr>contents = replicate 4096 0 @ replicate 4096 1 @ replicate 1808 1,
                offset = 10000\<rparr>)"
    by (simp add: example_response_def example_downloader_def)
  show ?thesis
    by (rule exI [of _ req]) (use r(1,2) d in \<open>simp add: show_nat_4096\<close>)
qed

section \<open>A probe that cannot be used\<close>

text \<open>
  C4. When the probe fails, or answers with a status outside 2xx, or without
  \<open>Accept-Ranges: bytes\<close>, \<open>Download\<close> does not return on that account: it goes on to
  the GET with no \<open>Range\<close> header, \<open>d.progress\<close> at 0 and the write offset at 0, and
  what it returns is what the GET and the loop give from there. If the GET
  answers with a body that is read and written without error, \<open>Download\<close> returns
  nil and the whole body is in the destination from offset 0.
\<close>

theorem Download_probe_unusable:
  assumes "seek_start env = None" "http_NewRequest env = None"
    and "\<not> (probe_ok (http_Do env (head_request d src))
            \<and> accepts_ranges (http_Do env (head_request d src)))"
  shows "probe_phase env d dst src = Inr (head_request d src, d\<lparr>progress := 0\<rparr>, dst\<lparr>offset := 0\<rparr>)
      \<and> Header (head_request d src) ''Range'' = None
      \<and> Download env d dst src =
          get_phase env (head_request d src) (d\<lparr>progress := 0\<rparr>) (dst\<lparr>offset := 0\<rparr>)
      \<and> (\<forall>resp cs fin.
            http_Do env ((head_request d src)\<lparr>Method := ''GET''\<rparr>) = Inr resp
            \<and> Body resp = reads_of cs fin \<and> (\<forall>j. dst_Write env j = None) \<longrightarrow>
            Download env d dst src =
              Some (None,
                \<lparr>progress = of_nat (length (concat cs @ fin)),
                 total = word_of_int (ContentLength resp),
                 userAgent = userAgent d\<rparr>,
                \<lparr>contents = (concat cs @ fin) @ drop (length (concat cs @ fin)) (contents dst),
                 offset = length (concat cs @ fin)\<rparr>))"
proof -
  let ?req = "head_request d src"
  let ?d1 = "d\<lparr>progress := 0\<rparr>"
  let ?dst1 = "dst\<lparr>offset := 0\<rparr>"
  have p: "probe_phase env d dst src = Inr (?req, ?d1, ?dst1)"
    by (rule probe_phase_no_resume [OF assms])
  have h: "Header ?req ''Range'' = None"
    by (simp add: head_request_def Header_Set_def)
  have g: "Download env d dst src = get_phase env ?req ?d1 ?dst1"
    by (rule Download_get_phase [OF p])
  have c: "Download env d dst src =
      Some (None,
        \<lparr>progress = of_nat (length (concat cs @ fin)),
         total = word_of_int (ContentLength resp),
         userAgent = userAgent d\<rparr>,
        \<lparr>contents = (concat cs @ fin) @ drop (length (concat cs @ fin)) (contents dst),
         offset = length (concat cs @ fin)\<rparr>)"
    if "http_Do env (?req\<lparr>Method := ''GET''\<rparr>) = Inr resp \<and> Body resp = reads_of cs fin
        \<and> (\<forall>j. dst_Write env j = None)" for resp cs fin
  proof -
    from that have "get_phase env ?req ?d1 ?dst1 =
      Some (None,
        ?d1\<lparr>total := progress ?d1 + word_of_int (ContentLength resp),
            progress := progress ?d1 + of_nat (length (concat cs @ fin))\<rparr>,
        write_at ?dst1 (concat cs @ fin))"
      by (intro get_phase_clean) simp_all
    then show ?thesis unfolding g write_at_start by (cases d) simp
  qed
  show ?thesis using p h g c by blast
qed

text \<open>
  The scenario of the specification: the probe answers 404, the GET answers 200
  with the full body.
\<close>

theorem Download_probe_unusable_witness:
  "Download
     (example_env (Inr (example_response 404 Map.empty 0 []))
        (Inr (example_response 200 Map.empty 3 (reads_of [[1, 2, 3]] []))))
     example_downloader \<lparr>contents = [9, 9], offset = 2\<rparr> example_url
   = Some (None, \<lparr>progress = 3, total = 3, userAgent = ''packer''\<rparr>,
           \<lparr>contents = [1, 2, 3], offset = 3\<rparr>)"
proof -
  let ?env = "example_env (Inr (example_response 404 Map.empty 0 []))
        (Inr (example_response 200 Map.empty 3 (reads_of [[1, 2, 3]] [])))"
  let ?dst = "\<lparr>contents = [9, 9], offset = 2\<rparr>"
  have "seek_start ?env = None" "http_NewRequest ?env = None"
    "\<not> (probe_ok (http_Do ?env (head_request example_downloader example_url))
         \<and> accepts_ranges (http_Do ?env (head_request example_downloader example_url)))"
    by (simp_all add: example_env_def example_response_def probe_ok_def head_request_def)
  from Download_probe_unusable [OF this, of ?dst]
  have "\<forall>resp cs fin.
        http_Do ?env ((head_request example_downloader example_url)\<lparr>Method := ''GET''\<rparr>) = Inr resp
        \<and> Body resp = reads_of cs fin \<and> (\<forall>j. dst_Write ?env j = None) \<longrightarrow>
        Download ?env example_downloader ?dst example_url =
          Some (None,
            \<lparr>progress = of_nat (length (concat cs @ fin)),
             total = word_of_int (ContentLength resp),
             userAgent = userAgent example_downloader\<rparr>,
            \<lparr>contents = (concat cs @ fin) @ drop (length (concat cs @ fin)) (contents ?dst),
             offset = length (concat cs @ fin)\<rparr>)"
    by blast
  from this [rule_format, of "example_response 200 Map.empty 3 (reads_of [[1, 2, 3]] [])" "[[1, 2, 3]]" "[]"]
  show ?thesis
    by (simp add: example_env_def example_response_def example_downloader_def)
qed

section \<open>The status of the GET response\<close>

lemma head_request_Method: "Method (head_request d src) = ''HEAD''"
  by (simp add: head_request_def)

lemma probe_phase_with_GET_status:
  "probe_phase (with_GET_status st env) d dst src = probe_phase env d dst src"
  by (cases "seek_start env"; cases "http_NewRequest env")
    (simp_all add: probe_phase_def with_GET_status_def head_request_Method Let_def)

lemma get_phase_with_GET_status:
  "get_phase (with_GET_status st env) req d dst = get_phase env req d dst"
  by (simp add: get_phase_def with_GET_status_def split: sum.splits)

text \<open>
  C2, as the code has it. \<open>Download\<close> never reads the status code of the GET
  response: whatever status the response carries, \<open>Download\<close> returns the same
  result and leaves the same counters and the same destination. When
  \<open>httpClient.Do\<close> itself fails on the GET request, \<open>Download\<close> returns that error.
\<close>

theorem Download_ignores_GET_status:
  "Download (with_GET_status st env) d dst src = Download env d dst src
   \<and> (\<forall>req d1 dst1 err.
         probe_phase env d dst src = Inr (req, d1, dst1)
         \<and> http_Do env (req\<lparr>Method := ''GET''\<rparr>) = Inl err
         \<longrightarrow> Download env d dst src = Some (Some err, d1, dst1))"
proof -
  have "Download (with_GET_status st env) d dst src = Download env d dst src"
    by (simp add: Download_def probe_phase_with_GET_status get_phase_with_GET_status
        split: sum.splits prod.splits)
  moreover have "\<forall>req d1 dst1 err.
         probe_phase env d dst src = Inr (req, d1, dst1)
         \<and> http_Do env (req\<lparr>Method := ''GET''\<rparr>) = Inl err
         \<longrightarrow> Download env d dst src = Some (Some err, d1, dst1)"
    by (simp add: Download_def get_phase_def)
  ultimately show ?thesis by simp
qed

text \<open>The theorem at a GET whose transport fails.\<close>

theorem Download_ignores_GET_status_witness:
  "Download (example_env (Inr (example_response 200 Map.empty 3 []))
              (Inl (Failure ''connection reset'')))
     example_downloader \<lparr>contents = [], offset = 0\<rparr> example_url
   = Some (Some (Failure ''connection reset''), example_downloader, \<lparr>contents = [], offset = 0\<rparr>)"
proof -
  let ?env = "example_env (Inr (example_response 200 Map.empty 3 []))
              (Inl (Failure ''connection reset''))"
  have "probe_phase ?env example_downloader \<lparr>contents = [], offset = 0\<rparr> example_url
      = Inr (head_request example_downloader example_url, example_downloader, \<lparr>contents = [], offset = 0\<rparr>)
    \<and> http_Do ?env ((head_request example_downloader example_url)\<lparr>Method := ''GET''\<rparr>)
      = Inl (Failure ''connection reset'')"
    by (simp add: probe_phase_def example_env_def example_response_def example_downloader_def
        probe_ok_def accepts_ranges_def Let_def)
  with Download_ignores_GET_status [of 200 ?env example_downloader "\<lparr>contents = [], offset = 0\<rparr>" example_url]
  show ?thesis by blast
qed

text \<open>
  C2 as stated fails: a GET answered with 404 and the nine bytes \<open>Not Found\<close> is a
  successful download of those nine bytes.
\<close>

theorem Download_GET_404_succeeds:
  "Download (example_env (Inr (example_response 404 Map.empty 9 []))
              (Inr (example_response 404 Map.empty 9
                     (reads_of [[78, 111, 116, 32, 70, 111, 117, 110, 100]] []))))
     example_downloader \<lparr>contents = [], offset = 0\<rparr> example_url
   = Some (None, \<lparr>progress = 9, total = 9, userAgent = ''packer''\<rparr>,
           \<lparr>contents = [78, 111, 116, 32, 70, 111, 117, 110, 100], offset = 9\<rparr>)"
  by (simp add: Download_def probe_phase_def get_phase_def example_env_def example_response_def
      example_downloader_def probe_ok_def accepts_ranges_def head_request_def reads_of_def
      write_at_def Let_def)

section \<open>The counters after a successful transfer\<close>

text \<open>
  C5, as the code has it. When \<open>Download\<close> returns nil and the content length of
  the GET response is the number of bytes read from its body, \<open>d.progress\<close> and
  \<open>d.total\<close> are equal, both being the offset at which writing started plus that
  number. The destination then holds that many bytes or as many as it held
  before, whichever is more; so the counters are the size of the destination
  whenever the destination was not longer than that before (as when it was
  empty, or when the transfer resumed at its end).
\<close>

theorem Download_success_counters:
  assumes "Download env d dst src = Some (None, d', dst')"
    and "probe_phase env d dst src = Inr (req, d1, dst1)"
    and "http_Do env (req\<lparr>Method := ''GET''\<rparr>) = Inr resp"
    and "ContentLength resp = int (length (body_bytes (Body resp)))"
  shows "progress d' = total d'
    \<and> progress d' = of_nat (offset dst1 + length (body_bytes (Body resp)))
    \<and> length (contents dst') = max (length (contents dst)) (offset dst1 + length (body_bytes (Body resp)))
    \<and> (length (contents dst) \<le> offset dst1 + length (body_bytes (Body resp))
         \<longrightarrow> progress d' = of_nat (length (contents dst')))"
proof -
  let ?n = "length (body_bytes (Body resp))"
  let ?d2 = "d1\<lparr>total := progress d1 + word_of_int (ContentLength resp)\<rparr>"
  have "stream_loop (dst_Write env) 0 (Body resp) ?d2 dst1 = Some (None, d', dst')"
    using assms(1) Download_get_phase [OF assms(2)] get_phase_response [OF assms(3)] by simp
  from stream_loop_success [OF this]
  have d': "d' = ?d2\<lparr>progress := progress ?d2 + of_nat ?n\<rparr>"
    and f': "dst' = write_at dst1 (body_bytes (Body resp))" by simp_all
  have p1: "progress d1 = of_nat (offset dst1)" by (rule probe_phase_Inr(1) [OF assms(2)])
  have c1: "contents dst1 = contents dst" by (rule probe_phase_Inr(4) [OF assms(2)])
  have o1: "offset dst1 \<le> length (contents dst1)"
    using probe_phase_Inr(5) [OF assms(2)] c1 by auto
  have a: "progress d' = total d'" by (simp add: d' assms(4))
  have b: "progress d' = of_nat (offset dst1 + ?n)" by (simp add: d' p1)
  have c: "length (contents dst') = max (length (contents dst)) (offset dst1 + ?n)"
    unfolding f' using length_write_at [OF o1] c1 by simp
  from a b c show ?thesis by (simp add: max_def)
qed

text \<open>
  The scenario of the specification: content length 10000, no range support, an
  empty destination.
\<close>

theorem Download_success_counters_witness:
  "\<exists>d' dst'.
     Download (example_env (Inr (example_response 200 Map.empty 10000 []))
                (Inr (example_response 200 Map.empty 10000
                       (reads_of [replicate 4096 7, replicate 4096 7, replicate 1808 7] []))))
       example_downloader \<lparr>contents = [], offset = 0\<rparr> example_url
       = Some (None, d', dst')
     \<and> progress d' = 10000 \<and> total d' = 10000 \<and> length (contents dst') = 10000"
proof -
  let ?resp = "example_response 200 Map.empty 10000
                 (reads_of [replicate 4096 7, replicate 4096 7, replicate 1808 7] [])"
  let ?env = "example_env (Inr (example_response 200 Map.empty 10000 [])) (Inr ?resp)"
  let ?dst = "\<lparr>contents = [], offset = 0\<rparr>"
  let ?req = "head_request example_downloader example_url"
  let ?d1 = "example_downloader\<lparr>progress := 0\<rparr>"
  let ?dst1 = "?dst\<lparr>offset := 0\<rparr>"
  have p: "probe_phase ?env example_downloader ?dst example_url = Inr (?req, ?d1, ?dst1)"
    by (rule probe_phase_no_resume)
      (simp_all add: example_env_def example_response_def accepts_ranges_def)
  have g: "http_Do ?env (?req\<lparr>Method := ''GET''\<rparr>) = Inr ?resp"
    by (simp add: example_env_def)
  have b: "Body ?resp = reads_of [replicate 4096 7, replicate 4096 7, replicate 1808 7] []"
    by (simp add: example_response_def)
  have w: "\<forall>j. dst_Write ?env j = None" by (simp add: example_env_def)
  obtain d' dst' where r: "Download ?env example_downloader ?dst example_url = Some (None, d', dst')"
    using get_phase_clean [OF g b w] Download_get_phase [OF p] by simp
  have c: "ContentLength ?resp = int (length (body_bytes (Body ?resp)))"
    by (simp add: b body_bytes_reads_of) (simp add: example_response_def)
  have n: "length (body_bytes (Body ?resp)) = 10000"
    by (simp add: b body_bytes_reads_of)
  have "progress d' = 10000 \<and> total d' = 10000 \<and> length (contents dst') = 10000"
    using Download_success_counters [OF r p g c] unfolding n by auto
  with r show ?thesis by blast
qed

text \<open>
  C5 as stated fails. The destination holds ten bytes, the server does not accept
  ranges and sends three bytes with an unknown content length: \<open>Download\<close> returns
  nil with \<open>d.progress\<close> 3, \<open>d.total\<close> \<open>2 ^ 64 - 1\<close> and ten bytes in the destination.
\<close>

theorem Download_success_mismatch:
  "Download (example_env (Inr (example_response 200 Map.empty (- 1) []))
              (Inr (example_response 200 Map.empty (- 1) (reads_of [[1, 2, 3]] []))))
     example_downloader \<lparr>contents = [0, 0, 0, 0, 0, 0, 0, 0, 0, 0], offset = 0\<rparr> example_url
   = Some (None, \<lparr>progress = 3, total = 18446744073709551615, userAgent = ''packer''\<rparr>,
           \<lparr>contents = [1, 2, 3, 0, 0, 0, 0, 0, 0, 0], offset = 3\<rparr>)"
  by (simp add: Download_def probe_phase_def get_phase_def example_env_def example_response_def
      example_downloader_def probe_ok_def accepts_ranges_def head_request_def reads_of_def
      write_at_def Let_def)

section \<open>\<open>d.total\<close>\<close>

text \<open>
  A transfer that returns before the GET is answered leaves \<open>d.total\<close> as it found
  it.
\<close>

lemma total_untouched_without_response:
  "probe_phase env d dst src = Inl (e, d1, dst1) \<Longrightarrow>
     Download env d dst src = Some (Some e, d1, dst1) \<and> total d1 = total d"
  "probe_phase env d dst src = Inr (req, d1, dst1) \<Longrightarrow>
   http_Do env (req\<lparr>Method := ''GET''\<rparr>) = Inl e \<Longrightarrow>
     Download env d dst src = Some (Some e, d1, dst1) \<and> total d1 = total d"
  using probe_phase_Inl(1) [of env d dst src e d1 dst1] probe_phase_Inr(2) [of env d dst src req d1 dst1]
  by (simp_all add: Download_def get_phase_def)

text \<open>
  C6. In a transfer whose GET is answered, \<open>d.total\<close> is as \<open>Download\<close> found it
  until line 175; there it becomes \<open>d.progress\<close> as it is at that point plus the
  response's content length, and it has that value in every state of the
  streaming loop and in the state in which \<open>Download\<close> returns.
\<close>

theorem total_computed_once:
  assumes "probe_phase env d dst src = Inr (req, d1, dst1)"
    and "http_Do env (req\<lparr>Method := ''GET''\<rparr>) = Inr resp"
  shows "total d1 = total d
    \<and> (\<forall>s \<in> set (loop_states (dst_Write env) 0 (Body resp)
                    (d1\<lparr>total := progress d1 + word_of_int (ContentLength resp)\<rparr>)).
          total s = progress d1 + word_of_int (ContentLength resp))
    \<and> (\<forall>err d' dst'. Download env d dst src = Some (err, d', dst')
          \<longrightarrow> total d' = progress d1 + word_of_int (ContentLength resp))"
proof (intro conjI ballI allI impI)
  show "total d1 = total d" by (rule probe_phase_Inr(2) [OF assms(1)])
next
  fix s
  assume "s \<in> set (loop_states (dst_Write env) 0 (Body resp)
                    (d1\<lparr>total := progress d1 + word_of_int (ContentLength resp)\<rparr>))"
  from loop_states_total [OF this]
  show "total s = progress d1 + word_of_int (ContentLength resp)" by simp
next
  fix err d' dst'
  assume "Download env d dst src = Some (err, d', dst')"
  then have "stream_loop (dst_Write env) 0 (Body resp)
      (d1\<lparr>total := progress d1 + word_of_int (ContentLength resp)\<rparr>) dst1 = Some (err, d', dst')"
    using Download_get_phase [OF assms(1)] get_phase_response [OF assms(2)] by simp
  from stream_loop_total [OF this]
  show "total d' = progress d1 + word_of_int (ContentLength resp)" by simp
qed

text \<open>The theorem at a transfer that resumes after two bytes and receives three.\<close>

theorem total_computed_once_witness:
  "Download (example_env (Inr (example_response 200 [''Accept-Ranges'' \<mapsto> ''bytes''] 5 []))
              (Inr (example_response 206 Map.empty 3 (reads_of [[1, 2], [3]] []))))
     example_downloader \<lparr>contents = [9, 9], offset = 0\<rparr> example_url
   = Some (None, \<lparr>progress = 5, total = 5, userAgent = ''packer''\<rparr>,
           \<lparr>contents = [9, 9, 1, 2, 3], offset = 5\<rparr>)
   \<and> total \<lparr>progress = 5, total = 5, userAgent = ''packer''\<rparr> = 2 + word_of_int 3"
proof -
  let ?resp = "example_response 206 Map.empty 3 (reads_of [[1, 2], [3]] [])"
  let ?env = "example_env (Inr (example_response 200 [''Accept-Ranges'' \<mapsto> ''bytes''] 5 [])) (Inr ?resp)"
  let ?dst = "\<lparr>contents = [9, 9], offset = 0\<rparr>"
  let ?req = "(head_request example_downloader example_url)
      \<lparr>Header := Header_Set (Header (head_request example_downloader example_url)) ''Range''
                    (range_value (length (contents ?dst)))\<rparr>"
  let ?d1 = "example_downloader\<lparr>progress := of_nat (length (contents ?dst))\<rparr>"
  let ?dst1 = "?dst\<lparr>offset := length (contents ?dst)\<rparr>"
  have p: "probe_phase ?env example_downloader ?dst example_url = Inr (?req, ?d1, ?dst1)"
    by (rule probe_phase_resume)
      (simp_all add: example_env_def example_response_def probe_ok_def accepts_ranges_def
        head_request_def)
  have g: "http_Do ?env (?req\<lparr>Method := ''GET''\<rparr>) = Inr ?resp"
    by (simp add: example_env_def)
  have r: "Download ?env example_downloader ?dst example_url
      = Some (None, \<lparr>progress = 5, total = 5, userAgent = ''packer''\<rparr>,
           \<lparr>contents = [9, 9, 1, 2, 3], offset = 5\<rparr>)"
    by (simp add: Download_def probe_phase_def get_phase_def example_env_def example_response_def
      example_downloader_def probe_ok_def accepts_ranges_def head_request_def reads_of_def
      write_at_def Let_def)
  from total_computed_once [OF p g] r
  have "total \<lparr>progress = 5, total = 5, userAgent = ''packer''\<rparr>
      = progress ?d1 + word_of_int (ContentLength ?resp)" by blast
  then have "total \<lparr>progress = 5, total = 5, userAgent = ''packer''\<rparr> = 2 + word_of_int 3"
    by (simp add: example_response_def)
  with r show ?thesis by blast
qed

text \<open>
  C9. When the content length of the GET response is -1, \<open>uint(resp.ContentLength)\<close>
  is \<open>2 ^ 64 - 1\<close>, and \<open>d.total\<close> is \<open>d.progress\<close> at the start of the GET plus
  \<open>2 ^ 64 - 1\<close> modulo \<open>2 ^ 64\<close>, that is \<open>d.progress - 1\<close>, throughout the loop and
  when \<open>Download\<close> returns.
\<close>

theorem total_of_unknown_length:
  assumes "probe_phase env d dst src = Inr (req, d1, dst1)"
    and "http_Do env (req\<lparr>Method := ''GET''\<rparr>) = Inr resp"
    and "ContentLength resp = - 1"
  shows "unat (word_of_int (ContentLength resp) :: uint) = 2 ^ 64 - 1
    \<and> (\<forall>s \<in> set (loop_states (dst_Write env) 0 (Body resp)
                    (d1\<lparr>total := progress d1 + word_of_int (ContentLength resp)\<rparr>)).
          total s = progress d1 + of_nat (2 ^ 64 - 1) \<and> total s = progress d1 - 1)
    \<and> (\<forall>err d' dst'. Download env d dst src = Some (err, d', dst')
          \<longrightarrow> total d' = progress d1 + of_nat (2 ^ 64 - 1) \<and> total d' = progress d1 - 1)"
proof -
  let ?d2 = "d1\<lparr>total := progress d1 + word_of_int (ContentLength resp)\<rparr>"
  have u: "unat (word_of_int (ContentLength resp) :: uint) = 2 ^ 64 - 1"
    by (simp add: assms(3) unsigned_minus_1_eq_mask mask_eq_exp_minus_1)
  have w: "(of_nat (2 ^ 64 - 1) :: uint) = - 1" by simp
  have t: "total ?d2 = progress d1 - 1" by (simp add: assms(3))
  have "total s = progress d1 - 1"
    if "s \<in> set (loop_states (dst_Write env) 0 (Body resp) ?d2)" for s
    using loop_states_total [OF that] t by simp
  moreover have "total d' = progress d1 - 1"
    if "Download env d dst src = Some (err, d', dst')" for err d' dst'
  proof -
    from that have "stream_loop (dst_Write env) 0 (Body resp) ?d2 dst1 = Some (err, d', dst')"
      using Download_get_phase [OF assms(1)] get_phase_response [OF assms(2)] by simp
    from stream_loop_total [OF this] t show ?thesis by simp
  qed
  ultimately show ?thesis using u unfolding w by simp
qed

text \<open>
  The theorem at a transfer that resumes after two bytes: \<open>d.total\<close> is 1 while five
  bytes are in the destination.
\<close>

theorem total_of_unknown_length_witness:
  "Download (example_env (Inr (example_response 200 [''Accept-Ranges'' \<mapsto> ''bytes''] (- 1) []))
              (Inr (example_response 206 Map.empty (- 1) (reads_of [[1, 2, 3]] []))))
     example_downloader \<lparr>contents = [9, 9], offset = 0\<rparr> example_url
   = Some (None, \<lparr>progress = 5, total = 1, userAgent = ''packer''\<rparr>,
           \<lparr>contents = [9, 9, 1, 2, 3], offset = 5\<rparr>)
   \<and> total \<lparr>progress = 5, total = 1, userAgent = ''packer''\<rparr> = 2 - 1"
proof -
  let ?resp = "example_response 206 Map.empty (- 1) (reads_of [[1, 2, 3]] [])"
  let ?env = "example_env (Inr (example_response 200 [''Accept-Ranges'' \<mapsto> ''bytes''] (- 1) [])) (Inr ?resp)"
  let ?dst = "\<lparr>contents = [9, 9], offset = 0\<rparr>"
  let ?req = "(head_request example_downloader example_url)
      \<lparr>Header := Header_Set (Header (head_request example_downloader example_url)) ''Range''
                    (range_value (length (contents ?dst)))\<rparr>"
  let ?d1 = "example_downloader\<lparr>progress := of_nat (length (contents ?dst))\<rparr>"
  let ?dst1 = "?dst\<lparr>offset := length (contents ?dst)\<rparr>"
  have p: "probe_phase ?env example_downloader ?dst example_url = Inr (?req, ?d1, ?dst1)"
    by (rule probe_phase_resume)
      (simp_all add: example_env_def example_response_def probe_ok_def accepts_ranges_def
        head_request_def)
  have g: "http_Do ?env (?req\<lparr>Method := ''GET''\<rparr>) = Inr ?resp"
    by (simp add: example_env_def)
  have c: "ContentLength ?resp = - 1" by (simp add: example_response_def)
  have r: "Download ?env example_downloader ?dst example_url
      = Some (None, \<lparr>progress = 5, total = 1, userAgent = ''packer''\<rparr>,
           \<lparr>contents = [9, 9, 1, 2, 3], offset = 5\<rparr>)"
    by (simp add: Download_def probe_phase_def get_phase_def example_env_def example_response_def
      example_downloader_def probe_ok_def accepts_ranges_def head_request_def reads_of_def
      write_at_def Let_def)
  from total_of_unknown_length [OF p g c] r
  have "total \<lparr>progress = 5, total = 1, userAgent = ''packer''\<rparr> = progress ?d1 - 1" by blast
  then have "total \<lparr>progress = 5, total = 1, userAgent = ''packer''\<rparr> = 2 - 1"
    by simp
  with r show ?thesis by blast
qed

section \<open>\<open>d.progress\<close> during the transfer\<close>

lemma loop_states_hd: "hd (loop_states wr k rs d) = d"
  by (induction wr k rs d rule: loop_states.induct) (auto simp: Let_def)

lemma loop_states_step:
  "Suc i < length (loop_states wr k rs d) \<Longrightarrow>
     progress (loop_states wr k rs d ! Suc i)
       = progress (loop_states wr k rs d ! i) + of_nat (length (fst (rs ! i)))"
proof (induction wr k rs d arbitrary: i rule: loop_states.induct)
  case (1 wr k d)
  then show ?case by simp
next
  case (2 wr k buf err rest d)
  let ?d' = "d\<lparr>progress := progress d + of_nat (length buf)\<rparr>"
  show ?case
  proof (cases "(err \<noteq> None \<and> err \<noteq> Some io_EOF) \<or> wr k \<noteq> None \<or> err = Some io_EOF")
    case True
    with "2.prems" show ?thesis by (auto simp: Let_def split: if_splits)
  next
    case False
    then have e: "loop_states wr k ((buf, err) # rest) d = d # loop_states wr (Suc k) rest ?d'"
      by (auto simp: Let_def)
    show ?thesis
    proof (cases i)
      case 0
      have "loop_states wr (Suc k) rest ?d' ! 0 = ?d'"
        using loop_states_hd [of wr "Suc k" rest ?d'] loop_states_nonempty [of wr "Suc k" rest ?d']
        by (simp add: hd_conv_nth)
      then show ?thesis using 0 e by simp
    next
      case (Suc j)
      have "Suc j < length (loop_states wr (Suc k) rest ?d')" using "2.prems" e Suc by simp
      from "2.IH" [OF _ refl _ this] False
      have "progress (loop_states wr (Suc k) rest ?d' ! Suc j)
          = progress (loop_states wr (Suc k) rest ?d' ! j) + of_nat (length (fst (rest ! j)))"
        by auto
      then show ?thesis unfolding e Suc by simp
    qed
  qed
qed

text \<open>
  C8. After the probe, \<open>d.progress\<close> is 0 or the size of the destination (the resume
  offset). From there each turn of the loop adds the length of the buffer it
  read to \<open>d.progress\<close>, and the values an observer sees are non-decreasing. The
  counter is a 64-bit unsigned integer: the statement is for transfers in which
  the size of the destination plus the bytes read stays below \<open>2 ^ 64\<close>, which a
  file offset (a signed 64-bit integer) cannot exceed.
\<close>

theorem progress_nondecreasing:
  assumes "probe_phase env d dst src = Inr (req, d1, dst1)"
    and "http_Do env (req\<lparr>Method := ''GET''\<rparr>) = Inr resp"
    and "length (contents dst) + length (concat (map fst (Body resp))) < 2 ^ 64"
  shows "(progress d1 = 0 \<or> progress d1 = of_nat (length (contents dst)))
    \<and> hd (loop_states (dst_Write env) 0 (Body resp)
             (d1\<lparr>total := progress d1 + word_of_int (ContentLength resp)\<rparr>))
        = d1\<lparr>total := progress d1 + word_of_int (ContentLength resp)\<rparr>
    \<and> sorted (map progress (loop_states (dst_Write env) 0 (Body resp)
                 (d1\<lparr>total := progress d1 + word_of_int (ContentLength resp)\<rparr>)))
    \<and> (\<forall>i. Suc i < length (loop_states (dst_Write env) 0 (Body resp)
                          (d1\<lparr>total := progress d1 + word_of_int (ContentLength resp)\<rparr>)) \<longrightarrow>
          progress (loop_states (dst_Write env) 0 (Body resp)
                     (d1\<lparr>total := progress d1 + word_of_int (ContentLength resp)\<rparr>) ! Suc i)
          = progress (loop_states (dst_Write env) 0 (Body resp)
                     (d1\<lparr>total := progress d1 + word_of_int (ContentLength resp)\<rparr>) ! i)
            + of_nat (length (fst (Body resp ! i))))"
proof -
  let ?d2 = "d1\<lparr>total := progress d1 + word_of_int (ContentLength resp)\<rparr>"
  have p1: "progress d1 = of_nat (offset dst1)" by (rule probe_phase_Inr(1) [OF assms(1)])
  have o1: "offset dst1 = 0 \<or> offset dst1 = length (contents dst)"
    by (rule probe_phase_Inr(5) [OF assms(1)])
  have a: "progress d1 = 0 \<or> progress d1 = of_nat (length (contents dst))"
    using p1 o1 by auto
  have "offset dst1 \<le> length (contents dst)" using o1 by auto
  then have "offset dst1 < 2 ^ 64" using assms(3) by simp
  then have "unat (progress d1) = offset dst1" by (simp add: p1 unat_of_nat)
  then have "unat (progress ?d2) + length (concat (map fst (Body resp))) < 2 ^ 64"
    using assms(3) \<open>offset dst1 \<le> length (contents dst)\<close> by simp
  from loop_states_sorted [OF this]
  have s: "sorted (map progress (loop_states (dst_Write env) 0 (Body resp) ?d2))" by blast
  show ?thesis using a s loop_states_hd loop_states_step by blast
qed

text \<open>The theorem at a transfer that resumes after two bytes and reads two, then one.\<close>

theorem progress_nondecreasing_witness:
  "sorted (map progress (loop_states (\<lambda>k. None) 0 (reads_of [[1, 2], [3]] [])
             \<lparr>progress = 2, total = 5, userAgent = ''packer''\<rparr>))
   \<and> map progress (loop_states (\<lambda>k. None) 0 (reads_of [[1, 2], [3]] [])
             \<lparr>progress = 2, total = 5, userAgent = ''packer''\<rparr>) = [2, 4, 5, 5]"
proof -
  let ?resp = "example_response 206 Map.empty 3 (reads_of [[1, 2], [3]] [])"
  let ?env = "example_env (Inr (example_response 200 [''Accept-Ranges'' \<mapsto> ''bytes''] 5 [])) (Inr ?resp)"
  let ?dst = "\<lparr>contents = [9, 9], offset = 0\<rparr>"
  let ?req = "(head_request example_downloader example_url)
      \<lparr>Header := Header_Set (Header (head_request example_downloader example_url)) ''Range''
                    (range_value (length (contents ?dst)))\<rparr>"
  let ?d1 = "example_downloader\<lparr>progress := of_nat (length (contents ?dst))\<rparr>"
  let ?dst1 = "?dst\<lparr>offset := length (contents ?dst)\<rparr>"
  have p: "probe_phase ?env example_downloader ?dst example_url = Inr (?req, ?d1, ?dst1)"
    by (rule probe_phase_resume)
      (simp_all add: example_env_def example_response_def probe_ok_def accepts_ranges_def
        head_request_def)
  have g: "http_Do ?env (?req\<lparr>Method := ''GET''\<rparr>) = Inr ?resp"
    by (simp add: example_env_def)
  have n: "length (contents ?dst) + length (concat (map fst (Body ?resp))) < 2 ^ 64"
    by (simp add: example_response_def reads_of_def)
  have e: "map progress (loop_states (\<lambda>k. None) 0 (reads_of [[1, 2], [3]] [])
             \<lparr>progress = 2, total = 5, userAgent = ''packer''\<rparr>) = [2, 4, 5, 5]"
    by (simp add: reads_of_def Let_def)
  from progress_nondecreasing [OF p g n]
  have "sorted (map progress (loop_states (dst_Write ?env) 0 (Body ?resp)
                 (?d1\<lparr>total := progress ?d1 + word_of_int (ContentLength ?resp)\<rparr>)))"
    by blast
  then have "sorted (map progress (loop_states (\<lambda>k. None) 0 (reads_of [[1, 2], [3]] [])
             \<lparr>progress = 2, total = 5, userAgent = ''packer''\<rparr>))"
    by (simp add: example_env_def example_response_def example_downloader_def)
  with e show ?thesis by blast
qed

end
